theory Spec2Isabelle
  imports Complex_Main "HOL-Library.Word"
begin

unbundle bit_operations_syntax

section \<open>Numbers\<close>

text \<open>
  The file \<^verbatim>\<open>script.js\<close> holds two successive versions of the game. The first
  (lines 1--559) plays on grid blocks, the second (lines 561--1304) on floating barriers.
  Functions whose text is the same in both versions are embedded once; functions that
  differ carry the suffix \<open>_v1\<close> or \<open>_v2\<close>.

  JavaScript numbers are binary64 floating-point numbers. A coordinate, velocity or time is
  modelled by the \<^typ>\<open>real\<close> it stands for, and an addition, subtraction,
  multiplication or division of the code by the exact operation followed by \<open>round64\<close>,
  the rounding to the nearest binary64 number, ties to the even significand. The significand
  has 53 bits: a number \<open>x\<close> with \<open>pow2 e \<le> \<bar>x\<bar> < pow2 (e + 1)\<close> is rounded to a
  multiple of \<open>pow2 (e - 52)\<close>, and the exponent \<open>e\<close> does not go below \<open>-1022\<close>
  (subnormal numbers). \<open>binade\<close> searches the exponent from 0, halving or doubling;
  2100 steps cover every sum and product of two binary64 numbers. A decimal literal of the
  code is the rounding of its value. Negation, \<^verbatim>\<open>Math.max\<close>, \<^verbatim>\<open>Math.min\<close>,
  \<^verbatim>\<open>Math.floor\<close> and \<^verbatim>\<open>Math.round\<close> are exact. A result beyond the largest
  binary64 number, where the code has \<^verbatim>\<open>Infinity\<close>, is left finite.
  \<^verbatim>\<open>Math.cos\<close> and \<^verbatim>\<open>Math.sin\<close>, whose precision the language leaves to the
  implementation, are taken to return the rounding of the exact value.

  Counters that the code only increments, or decrements under a positivity test, are
  \<^typ>\<open>nat\<close>; strengths are \<^typ>\<open>int\<close>; the generator state is a 32-bit word.
\<close>

definition pow2 :: "int \<Rightarrow> real" where
  "pow2 e = (if 0 \<le> e then 2 ^ nat e else 1 / 2 ^ nat (- e))"

text \<open>The nearest integer, ties to even.\<close>

definition rne :: "real \<Rightarrow> int" where
  "rne y = (let f = \<lfloor>y\<rfloor>; r = y - of_int f
            in if r < 1 / 2 then f else if 1 / 2 < r then f + 1
               else if even f then f else f + 1)"

fun binade :: "nat \<Rightarrow> real \<Rightarrow> int \<Rightarrow> int" where
  "binade 0 y e = e"
| "binade (Suc n) y e =
     (if 2 \<le> y then binade n (y / 2) (e + 1)
      else if y < 1 \<and> - 1022 < e then binade n (y * 2) (e - 1)
      else e)"

definition expo64 :: "real \<Rightarrow> int" where
  "expo64 x = binade 2100 \<bar>x\<bar> 0"

definition round64 :: "real \<Rightarrow> real" where
  "round64 x = (let q = pow2 (expo64 x - 52) in of_int (rne (x / q)) * q)"

definition Math_cos :: "real \<Rightarrow> real" where
  "Math_cos a = round64 (cos a)"

definition Math_sin :: "real \<Rightarrow> real" where
  "Math_sin a = round64 (sin a)"

text \<open>\<^verbatim>\<open>Math.round\<close> rounds to the nearest integer, halves upwards.\<close>

definition Math_round :: "real \<Rightarrow> int" where
  "Math_round v = \<lfloor>v + 1 / 2\<rfloor>"

definition clamp :: "real \<Rightarrow> real \<Rightarrow> real \<Rightarrow> real" where
  "clamp v lo hi = max lo (min hi v)"

section \<open>Constants\<close>

text \<open>
  The canvas size comes from the page holding the canvas, which is not in the source: it is a
  parameter of every function that reads \<^verbatim>\<open>GAME_WIDTH\<close> or \<^verbatim>\<open>GAME_HEIGHT\<close>.
\<close>

record canvas =
  width :: real
  height :: real

definition GAME_WIDTH :: "canvas \<Rightarrow> real" where
  "GAME_WIDTH cv = width cv"

definition GAME_HEIGHT :: "canvas \<Rightarrow> real" where
  "GAME_HEIGHT cv = height cv"

definition GRID_COLUMNS :: nat where
  "GRID_COLUMNS = 7"

definition GRID_SIZE :: "canvas \<Rightarrow> real" where
  "GRID_SIZE cv = round64 (GAME_WIDTH cv / real GRID_COLUMNS)"

definition BALL_RADIUS :: real where
  "BALL_RADIUS = 7"

definition BALL_SPEED_v1 :: real where
  "BALL_SPEED_v1 = round64 (62 / 10)"

definition BALL_SPEED_v2 :: real where
  "BALL_SPEED_v2 = 620"

definition MAX_FLOATING_BLOCKS :: nat where
  "MAX_FLOATING_BLOCKS = 24"

section \<open>The generator\<close>

text \<open>
  \<^verbatim>\<open>RNG.next\<close>: the three shift-and-xor steps act on the 32-bit pattern of the
  state (\<^verbatim>\<open><<\<close> drops the bits shifted out, \<^verbatim>\<open>>>>\<close> shifts zeros in), and
  the new state is divided by \<^verbatim>\<open>0xffffffff\<close>.
\<close>

definition xorshift32 :: "32 word \<Rightarrow> 32 word" where
  "xorshift32 s =
     (let x1 = s XOR push_bit 13 s;
          x2 = x1 XOR drop_bit 17 x1;
          x3 = x2 XOR push_bit 5 x2
      in x3)"

definition RNG_next :: "32 word \<Rightarrow> real \<times> 32 word" where
  "RNG_next s = (let s' = xorshift32 s in (round64 (real (unat s') / 4294967295), s'))"

section \<open>Entities\<close>

text \<open>
  \<^verbatim>\<open>Block\<close>: the type string is \<^verbatim>\<open>"block"\<close> or \<^verbatim>\<open>"pickup"\<close>. The column
  of a pickup comes from \<^verbatim>\<open>randomChoice\<close>, which reads an array at a computed
  index: a read past the end gives \<^verbatim>\<open>undefined\<close>, here \<open>None\<close>.
\<close>

datatype block_type = Standard | Pickup

record block =
  col :: "nat option"
  row :: nat
  strength :: int
  btype :: block_type
  destroyed :: bool

definition Block :: "nat option \<Rightarrow> nat \<Rightarrow> int \<Rightarrow> block_type \<Rightarrow> block" where
  "Block c r st ty = \<lparr>col = c, row = r, strength = st, btype = ty, destroyed = False\<rparr>"

record rect =
  rect_x :: real
  rect_y :: real
  rect_w :: real
  rect_h :: real

text \<open>
  \<^verbatim>\<open>Ball\<close>: the fields \<^verbatim>\<open>prevX\<close> and \<^verbatim>\<open>prevY\<close> exist in the second version
  only; the functions of the first version neither read nor write them.
\<close>

record ball =
  ball_x :: real
  ball_y :: real
  ball_vx :: real
  ball_vy :: real
  resting :: bool
  prevX :: real
  prevY :: real

record barrier =
  bar_x :: real
  bar_y :: real
  bar_size :: real
  bar_strength :: int
  bar_destroyed :: bool

definition BarrierBlock :: "real \<Rightarrow> real \<Rightarrow> real \<Rightarrow> int \<Rightarrow> barrier" where
  "BarrierBlock px py sz st =
     \<lparr>bar_x = px, bar_y = py, bar_size = sz, bar_strength = st, bar_destroyed = False\<rparr>"

section \<open>The session state\<close>

text \<open>
  The fields of \<^verbatim>\<open>Game\<close> that the simulation reads or writes. The particle list,
  the sounds, the HUD and the overlay are output only (nothing in the simulation reads
  them back) and are left out. \<^verbatim>\<open>activeBallChainLanding\<close> is \<^verbatim>\<open>null\<close> (here
  \<open>None\<close>) or a number; it is \<^verbatim>\<open>undefined\<close> only before the first
  \<^verbatim>\<open>launchTurn\<close>, when no ball exists and the field is not compared with \<^verbatim>\<open>null\<close>.
\<close>

record game =
  blocks :: "block list"
  balls :: "ball list"
  barrierBlocks :: "barrier list"
  pendingBalls :: nat
  ballChain :: nat
  baseBallPosition :: real
  baseY :: real
  turnAngle :: "real option"
  isAiming :: bool
  isLaunching :: bool
  turn :: nat
  score :: nat
  isGameOver :: bool
  rng :: "32 word"
  launchTimer :: real
  restingBalls :: "ball list"
  activeBallChainLanding :: "real option"

section \<open>Spawning a row of blocks\<close>

definition randomChoice :: "'a list \<Rightarrow> 32 word \<Rightarrow> 'a option \<times> 32 word" where
  "randomChoice arr s =
     (let (r, s') = RNG_next s;
          i = nat \<lfloor>round64 (r * real (length arr))\<rfloor>
      in (if i < length arr then Some (arr ! i) else None, s'))"

text \<open>
  The \<^verbatim>\<open>while\<close> loop of \<^verbatim>\<open>spawnRow\<close>: a column that is already taken is drawn
  again (\<^verbatim>\<open>continue\<close>), with no bound on the number of draws. The loop is a partial
  function: \<open>None\<close> means that it does not return.
\<close>

partial_function (option) spawnRow_loop ::
  "nat \<Rightarrow> nat set \<Rightarrow> game \<Rightarrow> (nat set \<times> game) option" where
  "spawnRow_loop blockCount taken g =
     (if blockCount > 0 then
        (let (r, s1) = RNG_next (rng g);
             c = nat \<lfloor>round64 (r * real GRID_COLUMNS)\<rfloor>
         in if c \<in> taken then spawnRow_loop blockCount taken (g\<lparr>rng := s1\<rparr>)
            else
              (let (r2, s2) = RNG_next s1;
                   st = max 1 (Math_round (round64 (real (turn g) * round64 (1 / 2 + r2))))
               in spawnRow_loop (blockCount - 1) (insert c taken)
                    (g\<lparr>rng := s2, blocks := blocks g @ [Block (Some c) 0 st Standard]\<rparr>)))
      else Some (taken, g))"

definition spawnRow :: "game \<Rightarrow> game option" where
  "spawnRow g =
     (let minBlocks = min 3 GRID_COLUMNS;
          maxBlocks = max 3 (nat \<lfloor>round64 (real GRID_COLUMNS * round64 (85 / 100))\<rfloor>);
          (r, s1) = RNG_next (rng g);
          blockCount = nat \<lfloor>round64 (r * real (maxBlocks - minBlocks + 1))\<rfloor> + minBlocks
      in case spawnRow_loop blockCount {} (g\<lparr>rng := s1\<rparr>) of
           None \<Rightarrow> None
         | Some (taken, g1) \<Rightarrow>
             (let (r2, s2) = RNG_next (rng g1);
                  g2 = g1\<lparr>rng := s2\<rparr>
              in if r2 > round64 (65 / 100) then
                   (let freeCols = filter (\<lambda>c. c \<notin> taken) [0..<GRID_COLUMNS]
                    in if freeCols \<noteq> [] then
                         (let (spawnCol, s3) = randomChoice freeCols (rng g2)
                          in Some (g2\<lparr>rng := s3,
                                      blocks := blocks g2 @ [Block spawnCol 0 1 Pickup]\<rparr>))
                       else Some g2)
                 else Some g2))"

declare spawnRow_loop.simps [code]

section \<open>Balls\<close>

text \<open>
  \<^verbatim>\<open>new Ball(x, y, angle)\<close>. The two versions differ in \<^verbatim>\<open>BALL_SPEED\<close>; the
  second also records the previous position.
\<close>

definition Ball_v1 :: "real \<Rightarrow> real \<Rightarrow> real \<Rightarrow> ball" where
  "Ball_v1 px py angle =
     \<lparr>ball_x = px, ball_y = py,
      ball_vx = round64 (Math_cos angle * BALL_SPEED_v1),
      ball_vy = round64 (Math_sin angle * BALL_SPEED_v1),
      resting = False, prevX = px, prevY = py\<rparr>"

definition Ball_v2 :: "real \<Rightarrow> real \<Rightarrow> real \<Rightarrow> ball" where
  "Ball_v2 px py angle =
     \<lparr>ball_x = px, ball_y = py,
      ball_vx = round64 (Math_cos angle * BALL_SPEED_v2),
      ball_vy = round64 (Math_sin angle * BALL_SPEED_v2),
      resting = False, prevX = px, prevY = py\<rparr>"

definition bounceWalls :: "canvas \<Rightarrow> ball \<Rightarrow> ball" where
  "bounceWalls cv b =
     (let b1 = (if round64 (ball_x b - BALL_RADIUS) \<le> 0 \<and> ball_vx b < 0
                then b\<lparr>ball_x := BALL_RADIUS, ball_vx := - ball_vx b\<rparr>
                else if round64 (ball_x b + BALL_RADIUS) \<ge> GAME_WIDTH cv \<and> ball_vx b > 0
                then b\<lparr>ball_x := round64 (GAME_WIDTH cv - BALL_RADIUS), ball_vx := - ball_vx b\<rparr>
                else b)
      in if round64 (ball_y b1 - BALL_RADIUS) \<le> 0 \<and> ball_vy b1 < 0
         then b1\<lparr>ball_y := BALL_RADIUS, ball_vy := - ball_vy b1\<rparr>
         else b1)"

definition Ball_update_v1 :: "canvas \<Rightarrow> real \<Rightarrow> ball \<Rightarrow> ball" where
  "Ball_update_v1 cv delta b =
     (if resting b then b
      else bounceWalls cv
             (b\<lparr>ball_x := round64 (ball_x b + round64 (ball_vx b * delta)),
                ball_y := round64 (ball_y b + round64 (ball_vy b * delta))\<rparr>))"

definition Ball_update_v2 :: "canvas \<Rightarrow> real \<Rightarrow> ball \<Rightarrow> ball" where
  "Ball_update_v2 cv delta b =
     (if resting b then b
      else bounceWalls cv
             (b\<lparr>prevX := ball_x b, prevY := ball_y b,
                ball_x := round64 (ball_x b + round64 (ball_vx b * delta)),
                ball_y := round64 (ball_y b + round64 (ball_vy b * delta))\<rparr>))"

definition setResting :: "real \<Rightarrow> ball \<Rightarrow> ball" where
  "setResting baseline b =
     b\<lparr>ball_y := round64 (baseline - BALL_RADIUS), ball_vx := 0, ball_vy := 0, resting := True\<rparr>"

section \<open>Circle against rectangle\<close>

definition circleRectCollision :: "ball \<Rightarrow> rect \<Rightarrow> bool" where
  "circleRectCollision b r =
     (let closestX = clamp (ball_x b) (rect_x r) (round64 (rect_x r + rect_w r));
          closestY = clamp (ball_y b) (rect_y r) (round64 (rect_y r + rect_h r));
          dx = round64 (ball_x b - closestX);
          dy = round64 (ball_y b - closestY)
      in round64 (round64 (dx * dx) + round64 (dy * dy)) < round64 (BALL_RADIUS * BALL_RADIUS))"

text \<open>
  \<^verbatim>\<open>Block.rect\<close>. With an undefined column the corner is \<^verbatim>\<open>NaN\<close>; every
  comparison with \<^verbatim>\<open>NaN\<close> is false, so such a block has no rectangle to hit.
\<close>

definition Block_rect :: "canvas \<Rightarrow> block \<Rightarrow> rect option" where
  "Block_rect cv blk =
     (case col blk of
        None \<Rightarrow> None
      | Some c \<Rightarrow>
          Some \<lparr>rect_x = round64 (round64 (real c * GRID_SIZE cv) + 6),
                rect_y = round64 (round64 (real (row blk) * GRID_SIZE cv) + 6),
                rect_w = round64 (GRID_SIZE cv - 12),
                rect_h = round64 (GRID_SIZE cv - 12)\<rparr>)"

definition Barrier_rect :: "barrier \<Rightarrow> rect" where
  "Barrier_rect br =
     \<lparr>rect_x = round64 (bar_x br - round64 (bar_size br / 2)),
      rect_y = round64 (bar_y br - round64 (bar_size br / 2)),
      rect_w = bar_size br,
      rect_h = bar_size br\<rparr>"

definition blockCollides :: "canvas \<Rightarrow> ball \<Rightarrow> block \<Rightarrow> bool" where
  "blockCollides cv b blk =
     (case Block_rect cv blk of None \<Rightarrow> False | Some r \<Rightarrow> circleRectCollision b r)"

section \<open>Collisions with blocks (first version)\<close>

text \<open>
  The body of the loop of \<^verbatim>\<open>handleCollisions\<close> for one block: the block, the ball
  and the session after it. The previous position is the position minus the velocity.
\<close>

definition collideBlock :: "canvas \<Rightarrow> block \<Rightarrow> ball \<Rightarrow> game \<Rightarrow> block \<times> ball \<times> game" where
  "collideBlock cv blk b g =
     (if destroyed blk then (blk, b, g)
      else
        (case Block_rect cv blk of
           None \<Rightarrow> (blk, b, g)
         | Some r \<Rightarrow>
             if circleRectCollision b r then
               (let prevY' = round64 (ball_y b - ball_vy b);
                    isHorizontal =
                      (round64 (prevY' + BALL_RADIUS) \<le> rect_y r
                       \<or> round64 (prevY' - BALL_RADIUS) \<ge> round64 (rect_y r + rect_h r));
                    (blk1, g1) =
                      (case btype blk of
                         Pickup \<Rightarrow>
                           (blk\<lparr>destroyed := True\<rparr>,
                            g\<lparr>ballChain := ballChain g + 1, score := score g + 10\<rparr>)
                       | Standard \<Rightarrow>
                           (blk\<lparr>strength := strength blk - 1\<rparr>, g\<lparr>score := score g + 5\<rparr>));
                    blk2 =
                      (if (btype blk1 = Standard \<and> strength blk1 \<le> 0) \<or> destroyed blk1
                       then blk1\<lparr>destroyed := True\<rparr> else blk1);
                    b1 = (if isHorizontal then b\<lparr>ball_vy := - ball_vy b\<rparr>
                          else b\<lparr>ball_vx := - ball_vx b\<rparr>)
                in (blk2, b1, g1))
             else (blk, b, g)))"

fun collideBlocks :: "canvas \<Rightarrow> block list \<Rightarrow> ball \<Rightarrow> game \<Rightarrow> block list \<times> ball \<times> game" where
  "collideBlocks cv [] b g = ([], b, g)"
| "collideBlocks cv (blk # rest) b g =
     (let (blk', b', g') = collideBlock cv blk b g;
          (rest', b'', g'') = collideBlocks cv rest b' g'
      in (blk' # rest', b'', g''))"

text \<open>
  \<^verbatim>\<open>handleCollisions\<close> of the first version, in two steps: the loop over the blocks,
  which leaves every block in the collection, and the filter that prunes the destroyed.
\<close>

definition collisionPass_v1 :: "canvas \<Rightarrow> ball \<Rightarrow> game \<Rightarrow> ball \<times> game" where
  "collisionPass_v1 cv b g =
     (let (bs, b', g') = collideBlocks cv (blocks g) b g in (b', g'\<lparr>blocks := bs\<rparr>))"

definition pruneBlocks :: "game \<Rightarrow> game" where
  "pruneBlocks g = g\<lparr>blocks := filter (\<lambda>blk. \<not> destroyed blk) (blocks g)\<rparr>"

definition handleCollisions_v1 :: "canvas \<Rightarrow> ball \<Rightarrow> game \<Rightarrow> ball \<times> game" where
  "handleCollisions_v1 cv b g =
     (let (b', g') = collisionPass_v1 cv b g in (b', pruneBlocks g'))"

section \<open>Floating barriers (second version)\<close>

definition createCandidate :: "canvas \<Rightarrow> game \<Rightarrow> barrier \<times> game" where
  "createCandidate cv g =
     (let sz = round64 (GRID_SIZE cv * round64 (9 / 10));
          padding = round64 (round64 (sz / 2) + 12);
          maxY = round64 (GAME_HEIGHT cv * round64 (6 / 10));
          strengthBase = turn g + 2;
          (r1, s1) = RNG_next (rng g);
          px = round64 (padding + round64 (r1 * round64 (GAME_WIDTH cv - round64 (padding * 2))));
          (r2, s2) = RNG_next s1;
          py = round64 (round64 (padding + round64 (r2 * round64 (maxY - padding))) + 32);
          (r3, s3) = RNG_next s2;
          st = max 2 (Math_round (round64 (real strengthBase * round64 (round64 (6 / 10) + r3))))
      in (BarrierBlock px py sz st, g\<lparr>rng := s3\<rparr>))"

fun overlapsAny :: "barrier \<Rightarrow> barrier list \<Rightarrow> bool" where
  "overlapsAny c [] = False"
| "overlapsAny c (br # rest) =
     (let minGap = round64 (bar_size c + 24);
          minGapSq = round64 (minGap * minGap);
          dx = round64 (bar_x br - bar_x c);
          dy = round64 (bar_y br - bar_y c)
      in if round64 (round64 (dx * dx) + round64 (dy * dy)) < minGapSq then True
         else overlapsAny c rest)"

definition isBarrierOverlapping :: "barrier \<Rightarrow> game \<Rightarrow> bool" where
  "isBarrierOverlapping c g = overlapsAny c (barrierBlocks g)"

text \<open>The retry loop of \<^verbatim>\<open>spawnFloatingBlock\<close>, with the attempts left.\<close>

fun retryCandidate :: "canvas \<Rightarrow> nat \<Rightarrow> barrier \<Rightarrow> game \<Rightarrow> barrier \<times> game" where
  "retryCandidate cv 0 c g = (c, g)"
| "retryCandidate cv (Suc n) c g =
     (if \<not> isBarrierOverlapping c g then (c, g)
      else (let (c', g') = createCandidate cv g in retryCandidate cv n c' g'))"

definition pickCandidate :: "canvas \<Rightarrow> game \<Rightarrow> barrier \<times> game" where
  "pickCandidate cv g =
     (let (c, g') = createCandidate cv g in retryCandidate cv 18 c g')"

definition spawnFloatingBlock :: "canvas \<Rightarrow> bool \<Rightarrow> game \<Rightarrow> game" where
  "spawnFloatingBlock cv force g =
     (if isGameOver g then g
      else
        (let (candidate, g1) = pickCandidate cv g
         in if \<not> force \<and> length (barrierBlocks g1) \<ge> MAX_FLOATING_BLOCKS then g1
            else
              (let kept = (if force \<and> length (barrierBlocks g1) \<ge> MAX_FLOATING_BLOCKS
                           then tl (barrierBlocks g1) else barrierBlocks g1)
               in g1\<lparr>barrierBlocks := kept @ [candidate]\<rparr>)))"

fun seedLoop :: "canvas \<Rightarrow> nat \<Rightarrow> game \<Rightarrow> game" where
  "seedLoop cv 0 g = g"
| "seedLoop cv (Suc n) g = seedLoop cv n (spawnFloatingBlock cv True g)"

definition seedFloatingBlocks :: "canvas \<Rightarrow> game \<Rightarrow> game" where
  "seedFloatingBlocks cv g = seedLoop cv 6 g"

section \<open>Collisions with barriers (second version)\<close>

text \<open>
  The body of the loop of \<^verbatim>\<open>handleCollisions\<close> for the barrier at index \<open>i\<close>.
  The loop runs over the live array: a forced spawn inside the body appends to it, and
  removes its first element at the cap, while the loop is running.
\<close>

definition barrierStep :: "canvas \<Rightarrow> nat \<Rightarrow> ball \<Rightarrow> game \<Rightarrow> ball \<times> game" where
  "barrierStep cv i b g =
     (let br = barrierBlocks g ! i
      in if bar_destroyed br then (b, g)
         else
           (let r = Barrier_rect br
            in if circleRectCollision b r then
                 (let isHorizontal =
                        (round64 (prevY b + BALL_RADIUS) \<le> rect_y r
                         \<or> round64 (prevY b - BALL_RADIUS) \<ge> round64 (rect_y r + rect_h r));
                      br1 = br\<lparr>bar_strength := bar_strength br - 1\<rparr>;
                      g1 = g\<lparr>barrierBlocks := (barrierBlocks g)[i := br1], score := score g + 8\<rparr>;
                      g2 = (if bar_strength br1 \<le> 0
                            then spawnFloatingBlock cv True
                                   (g1\<lparr>barrierBlocks :=
                                        (barrierBlocks g1)[i := br1\<lparr>bar_destroyed := True\<rparr>]\<rparr>)
                            else g1);
                      b1 = (if isHorizontal then b\<lparr>ball_vy := - ball_vy b\<rparr>
                            else b\<lparr>ball_vx := - ball_vx b\<rparr>)
                  in (b1, g2))
               else (b, g)))"

text \<open>
  The loop of \<^verbatim>\<open>handleCollisions\<close> ends although the array grows while it runs:
  a spawned barrier has strength at least 2, so it survives the one hit it can take in
  this pass, and only the destruction of a barrier makes the array grow. The measure
  counts the barriers from index \<open>i\<close> on that one hit would destroy.
\<close>

definition weak :: "barrier \<Rightarrow> bool" where
  "weak br = (\<not> bar_destroyed br \<and> bar_strength br \<le> 1)"

definition weakFrom :: "nat \<Rightarrow> game \<Rightarrow> nat" where
  "weakFrom i g = length (filter weak (drop i (barrierBlocks g)))"

lemma createCandidate_frame:
  "createCandidate cv g = (c, g') \<Longrightarrow> \<not> weak c \<and> (\<exists>s. g' = g\<lparr>rng := s\<rparr>)"
  by (auto simp: createCandidate_def Let_def BarrierBlock_def weak_def split: prod.splits)

lemma retryCandidate_frame:
  "retryCandidate cv n c g = (c', g') \<Longrightarrow> \<not> weak c \<Longrightarrow> \<not> weak c' \<and> (\<exists>s. g' = g\<lparr>rng := s\<rparr>)"
proof (induction n arbitrary: c g)
  case 0
  then show ?case by (auto intro: exI [of _ "rng g"])
next
  case (Suc n)
  show ?case
  proof (cases "isBarrierOverlapping c g")
    case False
    with Suc.prems show ?thesis by (auto intro: exI [of _ "rng g"])
  next
    case True
    obtain c1 g1 where cc: "createCandidate cv g = (c1, g1)" by (cases "createCandidate cv g")
    from createCandidate_frame [OF cc] obtain s1 where w1: "\<not> weak c1" and g1: "g1 = g\<lparr>rng := s1\<rparr>"
      by blast
    from Suc.prems True cc have "retryCandidate cv n c1 g1 = (c', g')" by simp
    from Suc.IH [OF this w1] obtain s where "\<not> weak c'" and "g' = g1\<lparr>rng := s\<rparr>" by blast
    with g1 show ?thesis by auto
  qed
qed

lemma pickCandidate_frame:
  "pickCandidate cv g = (c, g') \<Longrightarrow> \<not> weak c \<and> (\<exists>s. g' = g\<lparr>rng := s\<rparr>)"
proof -
  assume a: "pickCandidate cv g = (c, g')"
  obtain c1 g1 where cc: "createCandidate cv g = (c1, g1)" by (cases "createCandidate cv g")
  from createCandidate_frame [OF cc] obtain s1 where w1: "\<not> weak c1" and g1: "g1 = g\<lparr>rng := s1\<rparr>"
    by blast
  from a cc have "retryCandidate cv 18 c1 g1 = (c, g')" by (simp add: pickCandidate_def)
  from retryCandidate_frame [OF this w1] obtain s where "\<not> weak c" and "g' = g1\<lparr>rng := s\<rparr>" by blast
  with g1 show ?thesis by auto
qed

lemma spawnFloatingBlock_forced:
  "\<exists>c s. \<not> weak c \<and>
     spawnFloatingBlock cv True g =
       (if isGameOver g then g
        else g\<lparr>rng := s,
               barrierBlocks :=
                 (if length (barrierBlocks g) \<ge> MAX_FLOATING_BLOCKS then tl (barrierBlocks g)
                  else barrierBlocks g) @ [c]\<rparr>)"
proof -
  obtain c g1 where pc: "pickCandidate cv g = (c, g1)" by (cases "pickCandidate cv g")
  from pickCandidate_frame [OF pc] obtain s where w: "\<not> weak c" and g1: "g1 = g\<lparr>rng := s\<rparr>"
    by blast
  show ?thesis
    by (rule exI [of _ c], rule exI [of _ s])
       (simp add: spawnFloatingBlock_def pc g1 w Let_def)
qed


lemma weakFrom_step_same:
  assumes "i < length (barrierBlocks g)" 
    and "drop (Suc i) (barrierBlocks g') = drop (Suc i) (barrierBlocks g)"
  shows "weakFrom (Suc i) g' \<le> weakFrom i g"
proof -
  have "drop i (barrierBlocks g) = barrierBlocks g ! i # drop (Suc i) (barrierBlocks g)"
    using assms(1) by (simp add: Cons_nth_drop_Suc)
  then show ?thesis using assms(2) by (simp add: weakFrom_def)
qed

lemma count_weak_drop_Suc:
  "length (filter weak (drop (Suc j) xs)) \<le> length (filter weak (drop j xs))"
proof (cases "j < length xs")
  case True
  then have "drop j xs = xs ! j # drop (Suc j) xs" by (simp add: Cons_nth_drop_Suc)
  then show ?thesis by simp
next
  case False
  then show ?thesis by simp
qed

lemma barrierStep_measure:
  assumes i: "i < length (barrierBlocks g)" and st: "barrierStep cv i b g = (b', g')"
  shows "weakFrom (Suc i) g' < weakFrom i g \<or>
         (weakFrom (Suc i) g' = weakFrom i g \<and>
          length (barrierBlocks g') - Suc i < length (barrierBlocks g) - i)"
proof -
  let ?L = "barrierBlocks g"
  let ?br = "?L ! i"
  have dropi: "drop i ?L = ?br # drop (Suc i) ?L"
    using i by (simp add: Cons_nth_drop_Suc)
  show ?thesis
  proof (cases "\<not> bar_destroyed ?br \<and> circleRectCollision b (Barrier_rect ?br) \<and> bar_strength ?br - 1 \<le> 0")
    case False
    then have "barrierBlocks g' = ?L \<or> barrierBlocks g' = ?L[i := ?br\<lparr>bar_strength := bar_strength ?br - 1\<rparr>]"
      using st by (auto simp: barrierStep_def Let_def split: if_splits)
    then have d: "drop (Suc i) (barrierBlocks g') = drop (Suc i) ?L"
      and l: "length (barrierBlocks g') = length ?L" by auto
    from weakFrom_step_same [OF i d] l i show ?thesis by linarith
  next
    case True
    define L1 where "L1 = ?L[i := ?br\<lparr>bar_strength := bar_strength ?br - 1, bar_destroyed := True\<rparr>]"
    define g1 where "g1 = g\<lparr>score := score g + 8, barrierBlocks := L1\<rparr>"
    from True have "snd (barrierStep cv i b g) = spawnFloatingBlock cv True g1"
      by (simp add: barrierStep_def Let_def g1_def L1_def)
    with st have g': "g' = spawnFloatingBlock cv True g1" by simp
    have wk: "weak ?br" using True by (simp add: weak_def)
    have lenL1: "length L1 = length ?L" by (simp add: L1_def)
    have dropL1: "drop (Suc i) L1 = drop (Suc i) ?L" by (simp add: L1_def)
    have base: "length (filter weak (drop (Suc i) ?L)) < weakFrom i g"
      using wk dropi by (simp add: weakFrom_def)
    obtain c s where c: "\<not> weak c" and
      sp: "spawnFloatingBlock cv True g1 =
        (if isGameOver g1 then g1
         else g1\<lparr>rng := s, barrierBlocks :=
                 (if length (barrierBlocks g1) \<ge> MAX_FLOATING_BLOCKS then tl (barrierBlocks g1)
                  else barrierBlocks g1) @ [c]\<rparr>)"
      using spawnFloatingBlock_forced [of cv g1] by blast
    have bg1: "barrierBlocks g1 = L1" by (simp add: g1_def)
    have "weakFrom (Suc i) g' \<le> length (filter weak (drop (Suc i) ?L))"
    proof (cases "isGameOver g1")
      case True
      with sp g' bg1 dropL1 show ?thesis by (simp add: weakFrom_def)
    next
      case False
      show ?thesis
      proof (cases "length L1 \<ge> MAX_FLOATING_BLOCKS")
        case False
        with \<open>\<not> isGameOver g1\<close> sp g' bg1 have "barrierBlocks g' = L1 @ [c]" by simp
        then show ?thesis using c dropL1 lenL1 i by (simp add: weakFrom_def)
      next
        case True
        with \<open>\<not> isGameOver g1\<close> sp g' bg1 have bg': "barrierBlocks g' = tl L1 @ [c]" by simp
        have "drop (Suc i) (tl L1 @ [c]) = drop (Suc (Suc i)) L1 @ drop (Suc i - length (tl L1)) [c]"
          by (simp add: drop_Suc tl_drop)
        then have "length (filter weak (drop (Suc i) (tl L1 @ [c]))) \<le> length (filter weak (drop (Suc (Suc i)) L1))"
          using c by (cases "Suc i - length (tl L1)") auto
        also have "\<dots> \<le> length (filter weak (drop (Suc i) L1))"
          by (rule count_weak_drop_Suc)
        finally show ?thesis using bg' dropL1 by (simp add: weakFrom_def)
      qed
    qed
    with base show ?thesis by linarith
  qed
qed

function hcLoop :: "canvas \<Rightarrow> nat \<Rightarrow> ball \<Rightarrow> game \<Rightarrow> ball \<times> game" where
  "hcLoop cv i b g =
     (if i < length (barrierBlocks g)
      then (case barrierStep cv i b g of (b', g') \<Rightarrow> hcLoop cv (Suc i) b' g')
      else (b, g))"
  by pat_completeness auto
termination
proof (relation "measures [\<lambda>(cv, i, b, g). weakFrom i g, \<lambda>(cv, i, b, g). length (barrierBlocks g) - i]")
  show "wf (measures [\<lambda>(cv, i, b, g). weakFrom i g, \<lambda>(cv, i, b, g). length (barrierBlocks g) - i])"
    by simp
next
  fix cv i b g x1 x2
  assume i: "i < length (barrierBlocks g)" and "(x1, x2) = barrierStep cv i b g"
  then have e: "barrierStep cv i b g = (x1, x2)" by simp
  show "((cv, Suc i, x1, x2), cv, i, b, g)
       \<in> measures [\<lambda>(cv, i, b, g). weakFrom i g, \<lambda>(cv, i, b, g). length (barrierBlocks g) - i]"
    using barrierStep_measure [OF i e] by auto
qed

declare hcLoop.simps [simp del]

definition handleCollisions_v2 :: "canvas \<Rightarrow> ball \<Rightarrow> game \<Rightarrow> ball \<times> game" where
  "handleCollisions_v2 cv b g =
     (case hcLoop cv 0 b g of
        (b', g') \<Rightarrow>
          (b', g'\<lparr>barrierBlocks := filter (\<lambda>br. \<not> bar_destroyed br) (barrierBlocks g')\<rparr>))"

section \<open>The turn\<close>

definition launchTurn :: "real \<Rightarrow> game \<Rightarrow> game" where
  "launchTurn angle g =
     g\<lparr>isLaunching := True, turnAngle := Some angle, pendingBalls := ballChain g,
       launchTimer := 0, restingBalls := [], activeBallChainLanding := None\<rparr>"

definition gameOver :: "game \<Rightarrow> game" where
  "gameOver g = g\<lparr>isLaunching := False, isAiming := False, turnAngle := None, isGameOver := True\<rparr>"

text \<open>
  \<^verbatim>\<open>stepRowsDown\<close> returns from inside its loop: the blocks after the first one that
  reaches the bottom keep their row.
\<close>

fun stepRows :: "canvas \<Rightarrow> block list \<Rightarrow> bool \<times> block list" where
  "stepRows cv [] = (False, [])"
| "stepRows cv (blk # rest) =
     (let blk' = blk\<lparr>row := row blk + 1\<rparr>
      in if round64 (real (row blk') * GRID_SIZE cv) \<ge> round64 (GAME_HEIGHT cv - GRID_SIZE cv)
         then (True, blk' # rest)
         else (let (reached, rest') = stepRows cv rest in (reached, blk' # rest')))"

definition stepRowsDown :: "canvas \<Rightarrow> game \<Rightarrow> bool \<times> game" where
  "stepRowsDown cv g =
     (let (reached, bs) = stepRows cv (blocks g);
          g1 = g\<lparr>blocks := bs\<rparr>
      in if reached then (True, gameOver g1) else (False, g1))"

text \<open>\<^verbatim>\<open>a ?? b\<close> with \<^verbatim>\<open>a\<close> the landing position.\<close>

definition landingOr :: "game \<Rightarrow> real" where
  "landingOr g =
     (case activeBallChainLanding g of None \<Rightarrow> baseBallPosition g | Some px \<Rightarrow> px)"

definition finishTurn_v1 :: "canvas \<Rightarrow> game \<Rightarrow> game option" where
  "finishTurn_v1 cv g =
     (let g1 = g\<lparr>isLaunching := False, isAiming := False, turnAngle := None,
                 turn := turn g + 1, balls := [], baseBallPosition := landingOr g\<rparr>;
          (reachedBottom, g2) = stepRowsDown cv g1
      in if \<not> reachedBottom then spawnRow g2 else Some g2)"

definition finishTurn_v2 :: "game \<Rightarrow> game" where
  "finishTurn_v2 g =
     g\<lparr>isLaunching := False, isAiming := False, turnAngle := None,
       turn := turn g + 1, balls := [], baseBallPosition := landingOr g\<rparr>"

section \<open>The tick\<close>

text \<open>
  The angle passed to \<^verbatim>\<open>new Ball\<close> is \<^verbatim>\<open>this.turnAngle\<close>; \<^verbatim>\<open>Math.cos\<close> and
  \<^verbatim>\<open>Math.sin\<close> read \<^verbatim>\<open>null\<close> as 0.
\<close>

definition angleOf :: "game \<Rightarrow> real" where
  "angleOf g = (case turnAngle g of None \<Rightarrow> 0 | Some a \<Rightarrow> a)"

definition launchStep_v1 :: "real \<Rightarrow> game \<Rightarrow> game" where
  "launchStep_v1 delta g =
     (if isLaunching g then
        (let g1 = g\<lparr>launchTimer := round64 (launchTimer g - delta)\<rparr>
         in if pendingBalls g1 > 0 \<and> launchTimer g1 \<le> 0 then
              g1\<lparr>launchTimer := round64 (1 / 10),
                 pendingBalls := pendingBalls g1 - 1,
                 balls := balls g1 @
                   [Ball_v1 (landingOr g1) (round64 (baseY g1 - BALL_RADIUS)) (angleOf g1)]\<rparr>
            else g1)
      else g)"

definition launchStep_v2 :: "canvas \<Rightarrow> real \<Rightarrow> game \<Rightarrow> game" where
  "launchStep_v2 cv delta g =
     (if isLaunching g then
        (let g1 = g\<lparr>launchTimer := round64 (launchTimer g - delta)\<rparr>
         in if pendingBalls g1 > 0 \<and> launchTimer g1 \<le> 0 then
              spawnFloatingBlock cv False
                (g1\<lparr>launchTimer := round64 (1 / 10),
                    pendingBalls := pendingBalls g1 - 1,
                    balls := balls g1 @
                      [Ball_v2 (landingOr g1) (round64 (baseY g1 - BALL_RADIUS)) (angleOf g1)]\<rparr>)
            else g1)
      else g)"

text \<open>
  The end of the loop body over the balls: a ball that reaches the base line moving down
  is set to rest and pushed on \<^verbatim>\<open>restingBalls\<close>, and its x-coordinate is recorded if
  the landing position is still \<^verbatim>\<open>null\<close>.
\<close>

definition settle :: "ball \<Rightarrow> game \<Rightarrow> ball \<times> game" where
  "settle b g =
     (if round64 (ball_y b + BALL_RADIUS) \<ge> baseY g \<and> ball_vy b > 0 then
        (let b' = setResting (baseY g) b
         in (b', g\<lparr>restingBalls := restingBalls g @ [b'],
                   activeBallChainLanding :=
                     (case activeBallChainLanding g of
                        None \<Rightarrow> Some (ball_x b')
                      | Some px \<Rightarrow> Some px)\<rparr>))
      else (b, g))"

fun ballsLoop_v1 :: "canvas \<Rightarrow> real \<Rightarrow> ball list \<Rightarrow> game \<Rightarrow> ball list \<times> game" where
  "ballsLoop_v1 cv delta [] g = ([], g)"
| "ballsLoop_v1 cv delta (b # rest) g =
     (if resting b then
        (let (rest', g') = ballsLoop_v1 cv delta rest g in (b # rest', g'))
      else
        (let b1 = Ball_update_v1 cv delta b;
             (b2, g1) = handleCollisions_v1 cv b1 g;
             (b3, g2) = settle b2 g1;
             (rest', g3) = ballsLoop_v1 cv delta rest g2
         in (b3 # rest', g3)))"

fun ballsLoop_v2 :: "canvas \<Rightarrow> real \<Rightarrow> ball list \<Rightarrow> game \<Rightarrow> ball list \<times> game" where
  "ballsLoop_v2 cv delta [] g = ([], g)"
| "ballsLoop_v2 cv delta (b # rest) g =
     (if resting b then
        (let (rest', g') = ballsLoop_v2 cv delta rest g in (b # rest', g'))
      else
        (let b1 = Ball_update_v2 cv delta b;
             (b2, g1) = handleCollisions_v2 cv b1 g;
             (b3, g2) = settle b2 g1;
             (rest', g3) = ballsLoop_v2 cv delta rest g2
         in (b3 # rest', g3)))"

text \<open>
  \<^verbatim>\<open>update\<close> up to, and without, its last statement: the launch sequencer and the
  loop over the balls.
\<close>

definition tickBody_v1 :: "canvas \<Rightarrow> real \<Rightarrow> game \<Rightarrow> game" where
  "tickBody_v1 cv delta g =
     (let g1 = launchStep_v1 delta g;
          (bs, g2) = ballsLoop_v1 cv delta (balls g1) g1
      in g2\<lparr>balls := bs\<rparr>)"

definition tickBody_v2 :: "canvas \<Rightarrow> real \<Rightarrow> game \<Rightarrow> game" where
  "tickBody_v2 cv delta g =
     (let g1 = launchStep_v2 cv delta g;
          (bs, g2) = ballsLoop_v2 cv delta (balls g1) g1
      in g2\<lparr>balls := bs\<rparr>)"

text \<open>The condition of the last statement of \<^verbatim>\<open>update\<close>.\<close>

definition turnComplete :: "game \<Rightarrow> bool" where
  "turnComplete g = (isLaunching g \<and> pendingBalls g = 0 \<and> list_all resting (balls g))"

definition update_v1 :: "canvas \<Rightarrow> real \<Rightarrow> game \<Rightarrow> game option" where
  "update_v1 cv delta g =
     (if isGameOver g then Some g
      else
        (let g1 = tickBody_v1 cv delta g
         in if turnComplete g1 then finishTurn_v1 cv g1 else Some g1))"

definition update_v2 :: "canvas \<Rightarrow> real \<Rightarrow> game \<Rightarrow> game" where
  "update_v2 cv delta g =
     (if isGameOver g then g
      else
        (let g1 = tickBody_v2 cv delta g
         in if turnComplete g1 then finishTurn_v2 g1 else g1))"


fun run_v2 :: "canvas \<Rightarrow> real list \<Rightarrow> game \<Rightarrow> game" where
  "run_v2 cv [] g = g"
| "run_v2 cv (d # ds) g = run_v2 cv ds (update_v2 cv d g)"

section \<open>A new session\<close>

text \<open>
  The fields as \<^verbatim>\<open>reset\<close> assigns them, before it spawns the first row (first
  version) or seeds the barriers (second version), for a generator with the given state.
  The three fields that \<^verbatim>\<open>reset\<close> leaves to the first \<^verbatim>\<open>launchTurn\<close> are given
  the values \<^verbatim>\<open>launchTurn\<close> assigns.
\<close>

definition newSession :: "canvas \<Rightarrow> 32 word \<Rightarrow> game" where
  "newSession cv seed =
     \<lparr>blocks = [], balls = [], barrierBlocks = [], pendingBalls = 0, ballChain = 1,
      baseBallPosition = round64 (GAME_WIDTH cv / 2), baseY = round64 (GAME_HEIGHT cv - 24),
      turnAngle = None,
      isAiming = False, isLaunching = False, turn = 1, score = 0, isGameOver = False,
      rng = seed, launchTimer = 0, restingBalls = [], activeBallChainLanding = None\<rparr>"

definition reset_v1 :: "canvas \<Rightarrow> 32 word \<Rightarrow> game option" where
  "reset_v1 cv seed = spawnRow (newSession cv seed)"

definition reset_v2 :: "canvas \<Rightarrow> 32 word \<Rightarrow> game" where
  "reset_v2 cv seed = seedFloatingBlocks cv (newSession cv seed)"

definition standardColumns :: "game \<Rightarrow> nat option list" where
  "standardColumns g = map col (filter (\<lambda>blk. btype blk = Standard) (blocks g))"

text \<open>The standard blocks of row 0 for a list of columns with their strengths.\<close>

definition drawn :: "(nat \<times> int) list \<Rightarrow> block list" where
  "drawn cs = map (\<lambda>(c, st). Block (Some c) 0 st Standard) cs"

section \<open>The geometry of the collision test\<close>

text \<open>
  The rectangle as \<^verbatim>\<open>circleRectCollision\<close> reads it: from the corner
  \<^verbatim>\<open>(rect.x, rect.y)\<close> to the computed sums \<^verbatim>\<open>rect.x + rect.w\<close> and
  \<^verbatim>\<open>rect.y + rect.h\<close>. Then the points of that rectangle, the exact distance from
  the centre of a ball to a point, and the centre of the ball clamped into the rectangle.
\<close>

definition rectRight :: "rect \<Rightarrow> real" where
  "rectRight r = round64 (rect_x r + rect_w r)"

definition rectBottom :: "rect \<Rightarrow> real" where
  "rectBottom r = round64 (rect_y r + rect_h r)"



definition closestX :: "ball \<Rightarrow> rect \<Rightarrow> real" where
  "closestX b r = clamp (ball_x b) (rect_x r) (rectRight r)"

definition closestY :: "ball \<Rightarrow> rect \<Rightarrow> real" where
  "closestY b r = clamp (ball_y b) (rect_y r) (rectBottom r)"




section \<open>Vocabulary for the statements about collisions\<close>

text \<open>
  A ball touches a block when the block is not destroyed and the collision test holds.
  \<open>afterHit\<close> is the block that the loop body of \<^verbatim>\<open>handleCollisions\<close> leaves;
  \<open>inCell\<close> are the blocks of the collection in the grid cell of a given block and
  \<open>otherBlocks\<close> the rest; \<open>passes_v1\<close> runs one collision pass for each ball of a
  list. The sample values are used to check the statements on concrete inputs.
\<close>

definition touched :: "canvas \<Rightarrow> ball \<Rightarrow> block \<Rightarrow> bool" where
  "touched cv b blk = (\<not> destroyed blk \<and> blockCollides cv b blk)"

definition pickupsTouched :: "canvas \<Rightarrow> ball \<Rightarrow> block list \<Rightarrow> nat" where
  "pickupsTouched cv b bs = length (filter (\<lambda>blk. touched cv b blk \<and> btype blk = Pickup) bs)"

definition standardsTouched :: "canvas \<Rightarrow> ball \<Rightarrow> block list \<Rightarrow> nat" where
  "standardsTouched cv b bs = length (filter (\<lambda>blk. touched cv b blk \<and> btype blk = Standard) bs)"

definition inCell :: "block \<Rightarrow> game \<Rightarrow> block list" where
  "inCell blk g = filter (\<lambda>x. col x = col blk \<and> row x = row blk) (blocks g)"

fun passes_v1 :: "canvas \<Rightarrow> ball list \<Rightarrow> game \<Rightarrow> game" where
  "passes_v1 cv [] g = g"
| "passes_v1 cv (b # bs) g = passes_v1 cv bs (snd (handleCollisions_v1 cv b g))"

definition afterHit :: "canvas \<Rightarrow> ball \<Rightarrow> block \<Rightarrow> block" where
  "afterHit cv b blk =
     (if touched cv b blk then
        (case btype blk of
           Pickup \<Rightarrow> blk\<lparr>destroyed := True\<rparr>
         | Standard \<Rightarrow> blk\<lparr>strength := strength blk - 1, destroyed := (strength blk - 1 \<le> 0)\<rparr>)
      else blk)"

definition sampleCanvas :: canvas where
  "sampleCanvas = \<lparr>width = 420, height = 640\<rparr>"


definition samplePickup :: block where
  "samplePickup = Block (Some 0) 0 1 Pickup"

definition ballAt :: "real \<Rightarrow> real \<Rightarrow> ball" where
  "ballAt px py = \<lparr>ball_x = px, ball_y = py, ball_vx = 0, ball_vy = 0, resting = False,
                   prevX = px, prevY = py\<rparr>"

definition otherBlocks :: "block \<Rightarrow> game \<Rightarrow> block list" where
  "otherBlocks blk g = filter (\<lambda>x. \<not> (col x = col blk \<and> row x = row blk)) (blocks g)"

text \<open>
  A session with the sample pickup and a standard block in the next column, and one with
  the sample pickup and a second pickup in the next row.
\<close>

definition besideSession :: game where
  "besideSession = (newSession sampleCanvas 1)\<lparr>blocks := [samplePickup, Block (Some 1) 0 3 Standard]\<rparr>"

definition stackedSession :: game where
  "stackedSession = (newSession sampleCanvas 1)\<lparr>blocks := [samplePickup, Block (Some 0) 1 1 Pickup]\<rparr>"

section \<open>The population cap\<close>

text \<open>The bound of \<^verbatim>\<open>MAX_FLOATING_BLOCKS\<close> on the collection of barriers.\<close>

definition capped :: "game \<Rightarrow> bool" where
  "capped g = (length (barrierBlocks g) \<le> MAX_FLOATING_BLOCKS)"

text \<open>A session whose collection of barriers is at the cap.\<close>

definition fullSession :: game where
  "fullSession =
     (newSession sampleCanvas 1)\<lparr>barrierBlocks := replicate 24 (BarrierBlock 100 100 54 3)\<rparr>"

section \<open>Vocabulary for the statements about the turn\<close>

text \<open>
  \<open>turnView\<close> and \<open>loopView\<close> forget the fields that collisions and spawns write
  (and, for \<open>loopView\<close>, the balls and the landing record), so that equal views say
  that all the other fields are equal. \<open>firstRested\<close> is the x-coordinate of the first
  ball pushed on \<^verbatim>\<open>restingBalls\<close> since the launch; \<open>landingInv\<close> says that the
  landing position is that coordinate, and \<open>keepsLanding\<close> relates a state to a later
  one: the list of rested balls only grows at its end, a recorded landing position stays,
  and \<open>landingInv\<close> is kept.
\<close>

definition turnView :: "game \<Rightarrow> game" where
  "turnView g = g\<lparr>blocks := [], barrierBlocks := [], ballChain := 0, score := 0, rng := 0\<rparr>"

definition loopView :: "game \<Rightarrow> game" where
  "loopView g = (turnView g)\<lparr>balls := [], restingBalls := [], activeBallChainLanding := None\<rparr>"

definition firstRested :: "game \<Rightarrow> real option" where
  "firstRested g = (case restingBalls g of [] \<Rightarrow> None | b # rest \<Rightarrow> Some (ball_x b))"

definition landingInv :: "game \<Rightarrow> bool" where
  "landingInv g = (activeBallChainLanding g = firstRested g)"

definition keepsLanding :: "game \<Rightarrow> game \<Rightarrow> bool" where
  "keepsLanding g g' =
     ((\<exists>ys. restingBalls g' = restingBalls g @ ys)
      \<and> (\<forall>px. activeBallChainLanding g = Some px \<longrightarrow> activeBallChainLanding g' = Some px)
      \<and> (landingInv g \<longrightarrow> landingInv g'))"

definition launchDue :: "real \<Rightarrow> game \<Rightarrow> bool" where
  "launchDue delta g =
     (isLaunching g \<and> 0 < pendingBalls g \<and> round64 (launchTimer g - delta) \<le> 0)"

text \<open>
  \<open>launchDue\<close> is the condition under which the launch sequencer fires. A tick spawns a
  ball when the session is not over and the sequencer adds a ball to the collection;
  \<open>spawnTicks_v2\<close> lists, for every tick of a run that spawns a ball, the index of the
  tick and the accumulated time, the sum of the tick lengths, after it. \<open>spaced\<close> says that
  consecutive entries of a list of times are at least 0.1 apart, and \<open>spacedUpTo tol\<close>
  that consecutive spawns are at least 0.1 apart less \<open>tol\<close> for every tick from the one
  to the other. \<open>sequencer\<close> is the launch sequencer by itself, on the pending count and
  the timer. A tick finishes the turn when it increments the turn number, which only
  \<^verbatim>\<open>finishTurn\<close> does.
\<close>

definition spawnsBall_v2 :: "canvas \<Rightarrow> real \<Rightarrow> game \<Rightarrow> bool" where
  "spawnsBall_v2 cv delta g =
     (\<not> isGameOver g \<and> length (balls (launchStep_v2 cv delta g)) = Suc (length (balls g)))"

fun spawnTicks_v2 :: "canvas \<Rightarrow> nat \<Rightarrow> real \<Rightarrow> real list \<Rightarrow> game \<Rightarrow> (nat \<times> real) list" where
  "spawnTicks_v2 cv i t [] g = []"
| "spawnTicks_v2 cv i t (d # ds) g =
     (if spawnsBall_v2 cv d g then [(i, t + d)] else [])
       @ spawnTicks_v2 cv (Suc i) (t + d) ds (update_v2 cv d g)"

fun spaced :: "real list \<Rightarrow> bool" where
  "spaced [] = True"
| "spaced [t] = True"
| "spaced (t # u # rest) = (t + 1 / 10 \<le> u \<and> spaced (u # rest))"

fun spacedUpTo :: "real \<Rightarrow> (nat \<times> real) list \<Rightarrow> bool" where
  "spacedUpTo tol [] = True"
| "spacedUpTo tol [e] = True"
| "spacedUpTo tol ((i, t) # (j, u) # rest) =
     (t + 1 / 10 \<le> u + (real j - real i) * tol \<and> spacedUpTo tol ((j, u) # rest))"

fun sequencer :: "nat \<Rightarrow> real \<Rightarrow> real list \<Rightarrow> nat \<Rightarrow> real \<Rightarrow> (nat \<times> real) list" where
  "sequencer i t [] p timer = []"
| "sequencer i t (d # ds) p timer =
     (if 0 < p \<and> round64 (timer - d) \<le> 0
      then (i, t + d) # sequencer (Suc i) (t + d) ds (p - 1) (round64 (1 / 10))
      else sequencer (Suc i) (t + d) ds p (round64 (timer - d)))"

definition finishesTurn_v2 :: "canvas \<Rightarrow> real \<Rightarrow> game \<Rightarrow> bool" where
  "finishesTurn_v2 cv delta g = (turn (update_v2 cv delta g) = Suc (turn g))"

text \<open>
  Sample sessions: a launch straight up from a new session, the states after its first
  and second tick of one time-unit, and a session whose only ball is about to reach the
  base line, with the states after one tick of each version. Then a session with two balls
  to launch, and six ticks whose lengths are 0 and the binary64 numbers written
  \<^verbatim>\<open>0.019\<close>, \<^verbatim>\<open>0.007\<close>, \<^verbatim>\<open>0.032\<close>, \<^verbatim>\<open>0.018\<close> and \<^verbatim>\<open>0.024\<close>.
\<close>

definition pairSession :: game where
  "pairSession = (newSession sampleCanvas 1)\<lparr>ballChain := 2\<rparr>"

definition quickTicks :: "real list" where
  "quickTicks = [0, round64 (19 / 1000), round64 (7 / 1000), round64 (32 / 1000),
                 round64 (18 / 1000), round64 (24 / 1000)]"

definition sampleLaunch :: game where
  "sampleLaunch = launchTurn (- (pi / 2)) (newSession sampleCanvas 1)"

definition midSession :: game where
  "midSession =
     sampleLaunch
       \<lparr>balls := [\<lparr>ball_x = 210, ball_y = 7, ball_vx = 0, ball_vy = 620, resting = False,
                    prevX = 210, prevY = 609\<rparr>],
        barrierBlocks := [BarrierBlock (5491791978234561 / 140737488355328)
                                       (1344621140895469 / 17592186044416) 54 4],
        pendingBalls := 0, rng := 2647435461, launchTimer := round64 (1 / 10)\<rparr>"

definition doneSession :: game where
  "doneSession =
     midSession
       \<lparr>balls := [], turnAngle := None, isLaunching := False, turn := 2,
        launchTimer := round64 (round64 (1 / 10) - 1),
        restingBalls := [\<lparr>ball_x = 210, ball_y = 609, ball_vx = 0, ball_vy = 0, resting = True,
                           prevX = 210, prevY = 7\<rparr>],
        activeBallChainLanding := Some 210\<rparr>"




section \<open>Properties of binary64 rounding\<close>

text \<open>
  \<open>f64_eval\<close> evaluates \<open>round64\<close> on a numeral. The exponent found by \<open>binade\<close>
  is \<open>-1022\<close> or that of a power of two not above the number, which bounds the rounding
  error by half a unit in the last place.
\<close>

lemma binade_numeral:
  "binade (numeral k) y e =
     (if 2 \<le> y then binade (pred_numeral k) (y / 2) (e + 1)
      else if y < 1 \<and> - 1022 < e then binade (pred_numeral k) (y * 2) (e - 1)
      else e)"
  by (simp add: numeral_eq_Suc)

lemma round64_numeral:
  "round64 (numeral a) =
     (let q = pow2 (expo64 (numeral a) - 52) in of_int (rne (numeral a / q)) * q)"
  "round64 (- numeral a) =
     (let q = pow2 (expo64 (- numeral a) - 52) in of_int (rne (- numeral a / q)) * q)"
  "round64 (numeral a / numeral b) =
     (let q = pow2 (expo64 (numeral a / numeral b) - 52)
      in of_int (rne (numeral a / numeral b / q)) * q)"
  "round64 (- (numeral a / numeral b)) =
     (let q = pow2 (expo64 (- (numeral a / numeral b)) - 52)
      in of_int (rne (- (numeral a / numeral b) / q)) * q)"
  "round64 (1 / numeral b) =
     (let q = pow2 (expo64 (1 / numeral b) - 52) in of_int (rne (1 / numeral b / q)) * q)"
  "round64 (- (1 / numeral b)) =
     (let q = pow2 (expo64 (- (1 / numeral b)) - 52)
      in of_int (rne (- (1 / numeral b) / q)) * q)"
  "round64 1 = (let q = pow2 (expo64 1 - 52) in of_int (rne (1 / q)) * q)"
  "round64 (- 1) = (let q = pow2 (expo64 (- 1) - 52) in of_int (rne (- 1 / q)) * q)"
  by (rule round64_def)+

lemmas f64_eval = round64_numeral expo64_def binade_numeral pow2_def rne_def Let_def

lemma pow2_pos [simp]: "0 < pow2 e"
  by (simp add: pow2_def)

lemma pow2_nonneg [simp]: "0 \<le> pow2 e"
  by (simp add: pow2_def)

lemma pow2_neq0 [simp]: "pow2 e \<noteq> 0"
  by (simp add: pow2_def)

lemma pow2_add: "pow2 (a + b) = pow2 a * pow2 b"
proof -
  have "pow2 e = 2 powr (of_int e)" for e
    by (simp add: pow2_def powr_realpow [symmetric] powr_minus divide_inverse)
  then show ?thesis by (simp add: powr_add)
qed

lemma pow2_powr: "pow2 e = 2 powr (of_int e)"
  by (simp add: pow2_def powr_realpow [symmetric] powr_minus divide_inverse)

lemma pow2_mono: "a \<le> b \<Longrightarrow> pow2 a \<le> pow2 b"
  by (simp add: pow2_powr)

lemma pow2_le_iff: "pow2 a \<le> pow2 b \<longleftrightarrow> a \<le> b"
  by (simp add: pow2_powr)

lemma pow2_less_iff: "pow2 a < pow2 b \<longleftrightarrow> a < b"
  by (simp add: pow2_powr)

lemma pow2_0 [simp]: "pow2 0 = 1"
  by (simp add: pow2_def)

lemma pow2_succ: "pow2 (e + 1) = 2 * pow2 e"
  using pow2_add [of e 1] by (simp add: pow2_def)

lemma pow2_pred: "pow2 e = 2 * pow2 (e - 1)"
  using pow2_succ [of "e - 1"] by simp

lemma pow2_nat: "0 \<le> e \<Longrightarrow> pow2 e = of_int (2 ^ nat e)"
  by (simp add: pow2_def)

lemma binade_up:
  "1 \<le> y \<Longrightarrow> pow2 (binade n y e) \<le> y * pow2 e \<and> e \<le> binade n y e"
proof (induction n arbitrary: y e)
  case 0
  then show ?case by simp
next
  case (Suc n)
  show ?case
  proof (cases "2 \<le> y")
    case True
    then have "1 \<le> y / 2" by simp
    from Suc.IH [OF this, of "e + 1"] True show ?thesis
      by (simp add: pow2_succ)
  next
    case False
    with Suc.prems show ?thesis by simp
  qed
qed

lemma binade_down:
  "0 \<le> y \<Longrightarrow> y < 2 \<Longrightarrow> - 1022 \<le> e \<Longrightarrow> nat (e + 1022) \<le> n \<Longrightarrow>
   - 1022 \<le> binade n y e \<and> binade n y e \<le> e
   \<and> (binade n y e = - 1022 \<or> pow2 (binade n y e) \<le> y * pow2 e)"
proof (induction n arbitrary: y e)
  case 0
  then show ?case by simp
next
  case (Suc n)
  show ?case
  proof (cases "y < 1 \<and> - 1022 < e")
    case True
    have "y * pow2 e = y * 2 * pow2 (e - 1)"
      using pow2_pred [of e] by simp
    moreover from True Suc.prems
    have "- 1022 \<le> binade n (y * 2) (e - 1) \<and> binade n (y * 2) (e - 1) \<le> e - 1
      \<and> (binade n (y * 2) (e - 1) = - 1022 \<or> pow2 (binade n (y * 2) (e - 1)) \<le> y * 2 * pow2 (e - 1))"
      by (intro Suc.IH) auto
    ultimately show ?thesis using True Suc.prems by auto
  next
    case False
    with Suc.prems show ?thesis by (cases "y < 1") auto
  qed
qed

lemma expo64_spec: "- 1022 \<le> expo64 x \<and> (expo64 x = - 1022 \<or> pow2 (expo64 x) \<le> \<bar>x\<bar>)"
proof (cases "1 \<le> \<bar>x\<bar>")
  case True
  from binade_up [OF this, of 2100 0] show ?thesis by (simp add: expo64_def)
next
  case False
  then have "\<bar>x\<bar> < 2" by simp
  from binade_down [OF _ this, of 0 2100] show ?thesis by (simp add: expo64_def)
qed

lemma rne_error: "\<bar>of_int (rne y) - y\<bar> \<le> 1 / 2"
  by (simp add: rne_def Let_def; linarith?)

lemma rne_le: "y \<le> of_int n \<Longrightarrow> rne y \<le> n"
  by (simp add: rne_def Let_def) linarith

lemma rne_ge: "of_int n \<le> y \<Longrightarrow> n \<le> rne y"
  by (simp add: rne_def Let_def) linarith

lemma rne_of_int [simp]: "rne (of_int n) = n"
  by (simp add: rne_def)

lemma round64_expo: "round64 x = of_int (rne (x / pow2 (expo64 x - 52))) * pow2 (expo64 x - 52)"
  by (simp add: round64_def Let_def)

lemma round64_error: "\<bar>round64 x - x\<bar> \<le> pow2 (expo64 x - 53)"
proof -
  define q where "q = pow2 (expo64 x - 52)"
  have q: "0 < q" by (simp add: q_def)
  have "\<bar>of_int (rne (x / q)) - x / q\<bar> \<le> 1 / 2" by (rule rne_error)
  then have "\<bar>of_int (rne (x / q)) - x / q\<bar> * q \<le> 1 / 2 * q"
    using q by (intro mult_right_mono) auto
  moreover have "\<bar>of_int (rne (x / q)) - x / q\<bar> * q = \<bar>(of_int (rne (x / q)) - x / q) * q\<bar>"
    using q by (simp add: abs_mult)
  moreover have "(of_int (rne (x / q)) - x / q) * q = of_int (rne (x / q)) * q - x"
    using q by (simp add: field_simps)
  moreover have "1 / 2 * q = pow2 (expo64 x - 53)"
    using pow2_pred [of "expo64 x - 52"] by (simp add: q_def)
  moreover have "round64 x = of_int (rne (x / q)) * q"
    by (simp add: round64_expo q_def)
  ultimately show ?thesis by simp
qed

lemma round64_abs_error:
  assumes "\<bar>x\<bar> \<le> pow2 k" and "- 1022 \<le> k"
  shows "\<bar>round64 x - x\<bar> \<le> pow2 (k - 53)"
proof -
  have "expo64 x \<le> k"
  proof -
    from expo64_spec [of x] consider "expo64 x = - 1022" | "pow2 (expo64 x) \<le> \<bar>x\<bar>" by blast
    then show ?thesis
    proof cases
      case 1 with assms(2) show ?thesis by simp
    next
      case 2 with assms(1) have "pow2 (expo64 x) \<le> pow2 k" by simp
      then show ?thesis by (simp add: pow2_le_iff)
    qed
  qed
  then have "pow2 (expo64 x - 53) \<le> pow2 (k - 53)" by (simp add: pow2_le_iff)
  with round64_error [of x] show ?thesis by simp
qed

lemma round64_rel_error:
  assumes "pow2 (- 1022) \<le> \<bar>x\<bar>"
  shows "\<bar>round64 x - x\<bar> \<le> \<bar>x\<bar> * pow2 (- 53)"
proof -
  have "pow2 (expo64 x) \<le> \<bar>x\<bar>" using expo64_spec [of x] assms by auto
  then have "pow2 (expo64 x) * pow2 (- 53) \<le> \<bar>x\<bar> * pow2 (- 53)"
    by (simp add: mult_right_mono)
  moreover have "pow2 (expo64 x - 53) = pow2 (expo64 x) * pow2 (- 53)"
    using pow2_add [of "expo64 x" "- 53"] by simp
  ultimately show ?thesis using round64_error [of x] by linarith
qed

lemma round64_zero [simp]: "round64 0 = 0"
  by (simp add: round64_def rne_def)

lemma round64_nonneg: "0 \<le> x \<Longrightarrow> 0 \<le> round64 x"
proof -
  assume "0 \<le> x"
  then have "of_int 0 \<le> x / pow2 (expo64 x - 52)" by simp
  then have "0 \<le> rne (x / pow2 (expo64 x - 52))" by (rule rne_ge)
  then show ?thesis by (simp add: round64_expo)
qed

lemma round64_nonpos: "x \<le> 0 \<Longrightarrow> round64 x \<le> 0"
proof -
  assume "x \<le> 0"
  then have "x / pow2 (expo64 x - 52) \<le> of_int 0" by (simp add: divide_nonpos_pos)
  then have "rne (x / pow2 (expo64 x - 52)) \<le> 0" by (rule rne_le)
  then have "of_int (rne (x / pow2 (expo64 x - 52))) \<le> (0 :: real)" by simp
  then show ?thesis by (simp add: round64_expo mult_nonpos_nonneg)
qed

lemma round64_le_pow2:
  assumes "x \<le> pow2 k" and "- 1022 \<le> k"
  shows "round64 x \<le> pow2 k"
proof (cases "x \<le> 0")
  case True
  then have "round64 x \<le> 0" by (rule round64_nonpos)
  also have "0 \<le> pow2 k" by (simp add: less_imp_le)
  finally show ?thesis .
next
  case False
  define e where "e = expo64 x"
  have "e \<le> k"
  proof -
    from expo64_spec [of x] consider "e = - 1022" | "pow2 e \<le> \<bar>x\<bar>" unfolding e_def by blast
    then show ?thesis
    proof cases
      case 1 with assms(2) show ?thesis by simp
    next
      case 2 with assms(1) False have "pow2 e \<le> pow2 k" by simp
      then show ?thesis by (simp add: pow2_le_iff)
    qed
  qed
  then have nn: "0 \<le> k - e + 52" by simp
  have split: "pow2 k = pow2 (k - e + 52) * pow2 (e - 52)"
    using pow2_add [of "k - e + 52" "e - 52"] by simp
  have "x / pow2 (e - 52) \<le> pow2 (k - e + 52)"
    using assms(1) by (simp add: split pos_divide_le_eq)
  also have "pow2 (k - e + 52) = of_int (2 ^ nat (k - e + 52))" using nn by (rule pow2_nat)
  finally have "rne (x / pow2 (e - 52)) \<le> 2 ^ nat (k - e + 52)" by (rule rne_le)
  then have "of_int (rne (x / pow2 (e - 52))) \<le> (of_int (2 ^ nat (k - e + 52)) :: real)"
    by (simp only: of_int_le_iff)
  then have "of_int (rne (x / pow2 (e - 52))) \<le> pow2 (k - e + 52)"
    using pow2_nat [OF nn] by simp
  then have "of_int (rne (x / pow2 (e - 52))) * pow2 (e - 52) \<le> pow2 (k - e + 52) * pow2 (e - 52)"
    by (simp add: mult_right_mono less_imp_le)
  then show ?thesis by (simp add: round64_expo e_def [symmetric] split)
qed

lemma round64_le_int:
  assumes "x \<le> of_int n" and "0 \<le> n" and "n < 2 ^ 53"
  shows "round64 x \<le> of_int n"
proof (cases "x \<le> 0")
  case True
  then have "round64 x \<le> 0" by (rule round64_nonpos)
  with assms(2) show ?thesis by simp
next
  case False
  define e where "e = expo64 x"
  have "e \<le> 52"
  proof -
    from expo64_spec [of x] consider "e = - 1022" | "pow2 e \<le> \<bar>x\<bar>" unfolding e_def by blast
    then show ?thesis
    proof cases
      case 1 then show ?thesis by simp
    next
      case 2
      with assms(1) False have "pow2 e \<le> of_int n" by simp
      also have "(of_int n :: real) < of_int (2 ^ 53)" using assms(3) by (simp only: of_int_less_iff)
      also have "(of_int (2 ^ 53) :: real) = pow2 53" by (simp add: pow2_def)
      finally have "e < 53" by (simp add: pow2_less_iff)
      then show ?thesis by simp
    qed
  qed
  then have nn: "0 \<le> 52 - e" by simp
  have one: "pow2 (52 - e) * pow2 (e - 52) = 1"
    using pow2_add [of "52 - e" "e - 52"] by simp
  then have inv: "1 / pow2 (e - 52) = pow2 (52 - e)"
    by (simp add: field_simps)
  have "x / pow2 (e - 52) \<le> of_int n / pow2 (e - 52)"
    using assms(1) by (simp add: divide_right_mono)
  also have "of_int n / pow2 (e - 52) = of_int n * pow2 (52 - e)"
    using inv by (simp add: field_simps)
  also have "\<dots> = of_int (n * 2 ^ nat (52 - e))"
    using pow2_nat [OF nn] by simp
  finally have "rne (x / pow2 (e - 52)) \<le> n * 2 ^ nat (52 - e)" by (rule rne_le)
  then have "of_int (rne (x / pow2 (e - 52))) \<le> (of_int (n * 2 ^ nat (52 - e)) :: real)"
    by (simp only: of_int_le_iff)
  also have "(of_int (n * 2 ^ nat (52 - e)) :: real) = of_int n * pow2 (52 - e)"
    using pow2_nat [OF nn] by simp
  finally have "of_int (rne (x / pow2 (e - 52))) * pow2 (e - 52)
      \<le> of_int n * pow2 (52 - e) * pow2 (e - 52)"
    by (simp add: mult_right_mono)
  also have "\<dots> = of_int n" using one by (simp add: mult.assoc)
  finally show ?thesis by (simp add: round64_expo e_def [symmetric])
qed

section \<open>Properties of the generator\<close>

lemma xorshift32_zero: "xorshift32 0 = 0"
  by (simp add: xorshift32_def)

lemma RNG_next_zero: "RNG_next 0 = (0, 0)"
  by (simp add: RNG_next_def xorshift32_zero)

lemma quotient_range:
  "0 \<le> real (unat (xorshift32 s)) / 4294967295 \<and> real (unat (xorshift32 s)) / 4294967295 \<le> 1"
proof -
  have "unat (xorshift32 s) < 2 ^ 32"
    using unsigned_less [of "xorshift32 s", where ?'a = nat] by simp
  then have "unat (xorshift32 s) \<le> 4294967295" by simp
  then have "real (unat (xorshift32 s)) \<le> real 4294967295" by (rule of_nat_mono)
  moreover have "0 \<le> real (unat (xorshift32 s))" by (rule of_nat_0_le_iff)
  ultimately show ?thesis by (simp del: of_nat_unat)
qed

lemma RNG_next_range: "0 \<le> fst (RNG_next s) \<and> fst (RNG_next s) \<le> 1"
proof -
  let ?q = "real (unat (xorshift32 s)) / 4294967295"
  from quotient_range [of s] have "0 \<le> ?q" and "?q \<le> pow2 0" by simp_all
  then have "0 \<le> round64 ?q" and "round64 ?q \<le> pow2 0"
    by (simp_all add: round64_nonneg round64_le_pow2 del: of_nat_unat pow2_0)
  then show ?thesis by (simp add: RNG_next_def Let_def del: of_nat_unat)
qed

lemma round64_one: "round64 1 = 1"
  by (simp add: f64_eval)

text \<open>A draw other than 1 is below 1 by more than the rounding can make up.\<close>

lemma RNG_next_gap:
  assumes "xorshift32 s \<noteq> 0xffffffff"
  shows "fst (RNG_next s) \<le> 1 - 1 / 4294967295 + 1 / 2 ^ 53"
proof -
  let ?q = "real (unat (xorshift32 s)) / 4294967295"
  have "unat (xorshift32 s) < 2 ^ 32"
    using unsigned_less [of "xorshift32 s", where ?'a = nat] by simp
  moreover have "unat (xorshift32 s) \<noteq> 4294967295"
    using assms by (simp add: word_unat_eq_iff)
  ultimately have "unat (xorshift32 s) \<le> 4294967294" by simp
  then have "real (unat (xorshift32 s)) \<le> real 4294967294" by (rule of_nat_mono)
  then have q: "?q \<le> 1 - 1 / 4294967295" by (simp del: of_nat_unat)
  from quotient_range [of s] have "\<bar>?q\<bar> \<le> pow2 0" by (simp del: of_nat_unat)
  from round64_abs_error [OF this] have "\<bar>round64 ?q - ?q\<bar> \<le> 1 / 2 ^ 53"
    by (simp add: pow2_def del: of_nat_unat)
  with q have "round64 ?q \<le> 1 - 1 / 4294967295 + 1 / 2 ^ 53" by linarith
  then show ?thesis by (simp add: RNG_next_def Let_def del: of_nat_unat)
qed

lemma xorshift32_seed_max: "xorshift32 0x5e6cfce7 = 0xffffffff"
  by (simp add: xorshift32_def)

lemma RNG_next_below_one_iff: "fst (RNG_next s) < 1 \<longleftrightarrow> xorshift32 s \<noteq> 0xffffffff"
proof
  assume "fst (RNG_next s) < 1"
  then show "xorshift32 s \<noteq> 0xffffffff"
    by (auto simp: RNG_next_def round64_one)
next
  assume "xorshift32 s \<noteq> 0xffffffff"
  from RNG_next_gap [OF this] show "fst (RNG_next s) < 1" by simp
qed

text \<open>
  C1. The claim is that every value returned by \<^verbatim>\<open>next()\<close> is strictly below 1.
  From the state \<^verbatim>\<open>0x5e6cfce7\<close> the new state is \<^verbatim>\<open>0xffffffff\<close>, and the value
  returned is \<^verbatim>\<open>0xffffffff / 0xffffffff\<close>, which is 1.
\<close>

theorem RNG_next_returns_one: "RNG_next 0x5e6cfce7 = (1, 0xffffffff)"
  by (simp add: RNG_next_def xorshift32_seed_max round64_one)

section \<open>Spawning a row: the loop that draws columns\<close>

lemma spawnRow_loop_zero_aux:
  assumes "spawnRow_loop n taken g = Some res"
  shows "\<not> (rng g = 0 \<and> 0 < n \<and> 0 \<in> taken)"
proof (rule spawnRow_loop.raw_induct
    [where P = "\<lambda>k tk st out. \<not> (rng st = 0 \<and> 0 < k \<and> 0 \<in> tk)", OF _ assms])
  fix loop :: "nat \<Rightarrow> nat set \<Rightarrow> game \<Rightarrow> (nat set \<times> game) option"
  fix k tk st out
  assume IH: "\<And>k tk st out. loop k tk st = Some out \<Longrightarrow> \<not> (rng st = 0 \<and> 0 < k \<and> 0 \<in> tk)"
  assume body:
    "(if 0 < k then
        (let (r, s1) = RNG_next (rng st);
             c = nat \<lfloor>round64 (r * real GRID_COLUMNS)\<rfloor>
         in if c \<in> tk then loop k tk (st\<lparr>rng := s1\<rparr>)
            else
              (let (r2, s2) = RNG_next s1;
                   st' = max 1 (Math_round (round64 (real (turn st) * round64 (1 / 2 + r2))))
               in loop (k - 1) (insert c tk)
                    (st\<lparr>rng := s2, blocks := blocks st @ [Block (Some c) 0 st' Standard]\<rparr>)))
      else Some (tk, st)) = Some out"
  show "\<not> (rng st = 0 \<and> 0 < k \<and> 0 \<in> tk)"
  proof
    assume a: "rng st = 0 \<and> 0 < k \<and> 0 \<in> tk"
    with body have "loop k tk (st\<lparr>rng := 0\<rparr>) = Some out"
      by (simp add: RNG_next_zero)
    from IH [OF this] a show False by simp
  qed
qed

lemma spawnRow_loop_zero:
  "rng g = 0 \<Longrightarrow> 0 < n \<Longrightarrow> 0 \<in> taken \<Longrightarrow> spawnRow_loop n taken g = None"
  using spawnRow_loop_zero_aux [of n taken g] by (cases "spawnRow_loop n taken g") auto

text \<open>
  C9. The claim is that \<^verbatim>\<open>spawnRow\<close> terminates for every state of the generator.
  In the state 0 the generator stays at 0 and every draw is 0: three blocks are asked
  for, the first takes column 0, and every later draw is column 0 again, which is taken.
  The loop draws for ever: \<^verbatim>\<open>spawnRow\<close> does not return, whatever the rest of the
  session is.
\<close>

theorem spawnRow_zero_state_diverges: "spawnRow (g\<lparr>rng := 0\<rparr>) = None"
proof -
  have "spawnRow_loop 3 {} (g\<lparr>rng := 0\<rparr>) = None"
    by (subst spawnRow_loop.simps) (simp add: RNG_next_zero spawnRow_loop_zero)
  then show ?thesis
    by (simp add: spawnRow_def RNG_next_zero GRID_COLUMNS_def)
qed

text \<open>
  Whenever \<^verbatim>\<open>spawnRow\<close> returns, the standard blocks it has added are in pairwise
  distinct columns and there are between 3 and 6 of them: 6 exactly when the first draw
  is 1, that is when the generator moves to the state \<^verbatim>\<open>0xffffffff\<close>.
\<close>

lemma spawnRow_loop_columns_aux:
  assumes "spawnRow_loop n taken g = Some res"
  shows "\<exists>cs. blocks (snd res) = blocks g @ drawn cs \<and> length cs = n
           \<and> distinct (map fst cs) \<and> set (map fst cs) \<inter> taken = {}
           \<and> fst res = taken \<union> set (map fst cs)"
proof (rule spawnRow_loop.raw_induct
    [where P = "\<lambda>k tk st out. \<exists>cs. blocks (snd out) = blocks st @ drawn cs \<and> length cs = k
           \<and> distinct (map fst cs) \<and> set (map fst cs) \<inter> tk = {}
           \<and> fst out = tk \<union> set (map fst cs)", OF _ assms])
  fix loop :: "nat \<Rightarrow> nat set \<Rightarrow> game \<Rightarrow> (nat set \<times> game) option"
  fix k tk st out
  assume IH: "\<And>k tk st out. loop k tk st = Some out \<Longrightarrow>
     \<exists>cs. blocks (snd out) = blocks st @ drawn cs \<and> length cs = k
           \<and> distinct (map fst cs) \<and> set (map fst cs) \<inter> tk = {}
           \<and> fst out = tk \<union> set (map fst cs)"
  assume body:
    "(if 0 < k then
        (let (r, s1) = RNG_next (rng st);
             c = nat \<lfloor>round64 (r * real GRID_COLUMNS)\<rfloor>
         in if c \<in> tk then loop k tk (st\<lparr>rng := s1\<rparr>)
            else
              (let (r2, s2) = RNG_next s1;
                   st' = max 1 (Math_round (round64 (real (turn st) * round64 (1 / 2 + r2))))
               in loop (k - 1) (insert c tk)
                    (st\<lparr>rng := s2, blocks := blocks st @ [Block (Some c) 0 st' Standard]\<rparr>)))
      else Some (tk, st)) = Some out"
  show "\<exists>cs. blocks (snd out) = blocks st @ drawn cs \<and> length cs = k
           \<and> distinct (map fst cs) \<and> set (map fst cs) \<inter> tk = {}
           \<and> fst out = tk \<union> set (map fst cs)"
  proof (cases "0 < k")
    case False
    with body have "out = (tk, st)" by simp
    then show ?thesis using False by (intro exI [of _ "[]"]) (simp add: drawn_def)
  next
    case True
    obtain r s1 where d1: "RNG_next (rng st) = (r, s1)" by (cases "RNG_next (rng st)")
    obtain r2 s2 where d2: "RNG_next s1 = (r2, s2)" by (cases "RNG_next s1")
    let ?c = "nat \<lfloor>round64 (r * real GRID_COLUMNS)\<rfloor>"
    let ?v = "max 1 (Math_round (round64 (real (turn st) * round64 (1 / 2 + r2))))"
    show ?thesis
    proof (cases "?c \<in> tk")
      case True
      with body \<open>0 < k\<close> d1 have "loop k tk (st\<lparr>rng := s1\<rparr>) = Some out" by simp
      from IH [OF this] show ?thesis by simp
    next
      case False
      with body \<open>0 < k\<close> d1 d2 have "loop (k - 1) (insert ?c tk)
          (st\<lparr>rng := s2, blocks := blocks st @ [Block (Some ?c) 0 ?v Standard]\<rparr>) = Some out"
        by (simp add: Let_def)
      from IH [OF this] obtain cs where cs:
        "blocks (snd out) = (blocks st @ [Block (Some ?c) 0 ?v Standard]) @ drawn cs"
        "length cs = k - 1" "distinct (map fst cs)" "set (map fst cs) \<inter> insert ?c tk = {}"
        "fst out = insert ?c tk \<union> set (map fst cs)"
        by auto
      show ?thesis
        using cs False \<open>0 < k\<close>
        by (intro exI [of _ "(?c, ?v) # cs"]) (auto simp: drawn_def)
    qed
  qed
qed

lemma standardColumns_drawn:
  "map col (filter (\<lambda>blk. btype blk = Standard) (drawn cs)) = map (Some \<circ> fst) cs"
  by (induction cs) (auto simp: drawn_def Block_def)

lemma spawnRow_columns:
  assumes "spawnRow g = Some g'"
  shows "\<exists>cols. standardColumns g' = standardColumns g @ map Some cols \<and> distinct cols
           \<and> 3 \<le> length cols \<and> length cols \<le> 6
           \<and> (length cols = 6 \<longleftrightarrow> xorshift32 (rng g) = 0xffffffff)"
proof -
  obtain r s1 where d1: "RNG_next (rng g) = (r, s1)" by (cases "RNG_next (rng g)")
  have r01: "0 \<le> r" "r \<le> 1" using RNG_next_range [of "rng g"] d1 by simp_all
  have r1: "r < 1 \<longleftrightarrow> xorshift32 (rng g) \<noteq> 0xffffffff"
    using RNG_next_below_one_iff [of "rng g"] d1 by simp
  let ?n = "nat \<lfloor>round64 (r * 3)\<rfloor> + 3"
  have n: "3 \<le> ?n" "?n \<le> 6" "?n = 6 \<longleftrightarrow> \<not> r < 1"
  proof -
    have "r * 3 \<le> of_int 3" using r01 by simp
    then have up: "round64 (r * 3) \<le> 3" using round64_le_int [of "r * 3" 3] by simp
    have lo: "0 \<le> round64 (r * 3)" using r01 by (simp add: round64_nonneg)
    have f: "0 \<le> \<lfloor>round64 (r * 3)\<rfloor>" "\<lfloor>round64 (r * 3)\<rfloor> \<le> 3"
      using lo up by (simp_all add: le_floor_iff floor_le_iff)
    show "3 \<le> ?n" by simp
    show "?n \<le> 6" using f by linarith
    have "\<lfloor>round64 (r * 3)\<rfloor> = 3 \<longleftrightarrow> \<not> r < 1"
    proof (cases "r < 1")
      case True
      then have "xorshift32 (rng g) \<noteq> 0xffffffff" using r1 by simp
      from RNG_next_gap [OF this] d1
      have g: "r \<le> 1 - 1 / 4294967295 + 1 / 9007199254740992" by simp
      have "\<bar>r * 3\<bar> \<le> pow2 2" using r01 by (simp add: pow2_def)
      from round64_abs_error [OF this]
      have "\<bar>round64 (r * 3) - r * 3\<bar> \<le> 1 / 2251799813685248"
        by (simp add: pow2_def)
      with g have "round64 (r * 3) < 3" by linarith
      then have "\<lfloor>round64 (r * 3)\<rfloor> \<noteq> 3" by (auto simp: floor_eq_iff)
      with True show ?thesis by simp
    next
      case False
      with r01 have "r = 1" by simp
      then have "round64 (r * 3) = 3" by (simp add: f64_eval)
      with False show ?thesis by simp
    qed
    then show "?n = 6 \<longleftrightarrow> \<not> r < 1" using f by auto
  qed
  have five: "nat \<lfloor>round64 (7 * round64 (17 / 20))\<rfloor> = 5"
    by (simp add: f64_eval)
  from assms d1 obtain tk g1 where l: "spawnRow_loop ?n {} (g\<lparr>rng := s1\<rparr>) = Some (tk, g1)"
    by (auto simp: spawnRow_def Let_def GRID_COLUMNS_def five split: option.splits)
  from spawnRow_loop_columns_aux [OF l] obtain cs where cs:
    "blocks g1 = blocks g @ drawn cs" "length cs = ?n" "distinct (map fst cs)"
    by auto
  from assms d1 l have "\<exists>s. g' = g1\<lparr>rng := s\<rparr> \<or> (\<exists>c. g' = g1\<lparr>rng := s, blocks := blocks g1 @ [Block c 0 1 Pickup]\<rparr>)"
    by (auto simp: spawnRow_def Let_def GRID_COLUMNS_def five case_prod_beta split: if_splits)
  then have "standardColumns g' = standardColumns g1"
    by (auto simp: standardColumns_def Block_def)
  also have "\<dots> = standardColumns g @ map Some (map fst cs)"
    using cs(1) standardColumns_drawn [of cs] by (simp add: standardColumns_def)
  finally have "standardColumns g' = standardColumns g @ map Some (map fst cs)" .
  with cs n r1 show ?thesis
    by (intro exI [of _ "map fst cs"]) auto
qed

text \<open>
  C2. The claim is that one call of \<^verbatim>\<open>spawnRow\<close> adds between 3 and 5 standard
  blocks, in distinct columns. From the state \<^verbatim>\<open>0x5e6cfce7\<close> the first draw is 1, the
  count is \<open>\<lfloor>1 * 3\<rfloor> + 3 = 6\<close>, and the call returns with six standard blocks.
\<close>

theorem spawnRow_six_standard_blocks:
  "map_option standardColumns (spawnRow (newSession cv 0x5e6cfce7)) =
     Some [Some 0, Some 3, Some 4, Some 2, Some 6, Some 1]"
  by (simp add: spawnRow_def spawnRow_loop.simps RNG_next_def xorshift32_def GRID_COLUMNS_def
      f64_eval Block_def newSession_def standardColumns_def)

section \<open>The collision test\<close>















section \<open>Collisions with blocks\<close>

lemma collideBlock_block: "fst (collideBlock cv blk b g) = afterHit cv b blk"
  by (cases "btype blk")
     (auto simp: collideBlock_def afterHit_def touched_def blockCollides_def Let_def
           split: option.splits)

lemma collideBlock_ball:
  "ball_x (fst (snd (collideBlock cv blk b g))) = ball_x b \<and>
   ball_y (fst (snd (collideBlock cv blk b g))) = ball_y b"
  by (cases "btype blk")
     (auto simp: collideBlock_def Let_def split: option.splits)

lemma collideBlock_game:
  "snd (snd (collideBlock cv blk b g)) =
     (if touched cv b blk then
        (case btype blk of
           Pickup \<Rightarrow> g\<lparr>ballChain := ballChain g + 1, score := score g + 10\<rparr>
         | Standard \<Rightarrow> g\<lparr>score := score g + 5\<rparr>)
      else g)"
  by (cases "btype blk")
     (auto simp: collideBlock_def touched_def blockCollides_def Let_def split: option.splits)

lemma blockCollides_pos:
  "ball_x b' = ball_x b \<Longrightarrow> ball_y b' = ball_y b \<Longrightarrow> blockCollides cv b' blk = blockCollides cv b blk"
  by (simp add: blockCollides_def circleRectCollision_def split: option.splits)

lemma touched_pos:
  "ball_x b' = ball_x b \<Longrightarrow> ball_y b' = ball_y b \<Longrightarrow> touched cv b' blk = touched cv b blk"
  using blockCollides_pos [of b' b cv blk] by (simp add: touched_def)

lemma afterHit_pos:
  "ball_x b' = ball_x b \<Longrightarrow> ball_y b' = ball_y b \<Longrightarrow> afterHit cv b' blk = afterHit cv b blk"
  using touched_pos [of b' b cv blk] by (simp add: afterHit_def)

lemma collideBlocks_effect:
  "collideBlocks cv bs b g = (bs', b', g') \<Longrightarrow>
     bs' = map (afterHit cv b) bs \<and> ball_x b' = ball_x b \<and> ball_y b' = ball_y b \<and>
     g' = g\<lparr>ballChain := ballChain g + pickupsTouched cv b bs,
            score := score g + 10 * pickupsTouched cv b bs + 5 * standardsTouched cv b bs\<rparr>"
proof (induction bs arbitrary: b g bs' b' g')
  case Nil
  then show ?case by (simp add: pickupsTouched_def standardsTouched_def)
next
  case (Cons blk rest)
  obtain blk1 b1 g1 where c: "collideBlock cv blk b g = (blk1, b1, g1)"
    by (cases "collideBlock cv blk b g") auto
  obtain rest1 b2 g2 where r: "collideBlocks cv rest b1 g1 = (rest1, b2, g2)"
    by (cases "collideBlocks cv rest b1 g1") auto
  from c have blk1: "blk1 = afterHit cv b blk"
    using collideBlock_block [of cv blk b g] by simp
  from c have pos: "ball_x b1 = ball_x b" "ball_y b1 = ball_y b"
    using collideBlock_ball [of cv blk b g] by simp_all
  from c have g1: "g1 = (if touched cv b blk then
        (case btype blk of
           Pickup \<Rightarrow> g\<lparr>ballChain := ballChain g + 1, score := score g + 10\<rparr>
         | Standard \<Rightarrow> g\<lparr>score := score g + 5\<rparr>)
      else g)"
    using collideBlock_game [of cv blk b g] by simp
  from Cons.IH [OF r] have ih: "rest1 = map (afterHit cv b1) rest" "ball_x b2 = ball_x b1"
    "ball_y b2 = ball_y b1"
    "g2 = g1\<lparr>ballChain := ballChain g1 + pickupsTouched cv b1 rest,
            score := score g1 + 10 * pickupsTouched cv b1 rest + 5 * standardsTouched cv b1 rest\<rparr>"
    by simp_all
  have t: "touched cv b1 = touched cv b"
    using touched_pos [OF pos] by (intro ext)
  have same: "afterHit cv b1 = afterHit cv b" "pickupsTouched cv b1 rest = pickupsTouched cv b rest"
    "standardsTouched cv b1 rest = standardsTouched cv b rest"
  proof -
    show "afterHit cv b1 = afterHit cv b"
      using afterHit_pos [OF pos] by (intro ext)
    show "pickupsTouched cv b1 rest = pickupsTouched cv b rest"
      by (simp add: pickupsTouched_def t)
    show "standardsTouched cv b1 rest = standardsTouched cv b rest"
      by (simp add: standardsTouched_def t)
  qed
  from Cons.prems c r have res: "bs' = blk1 # rest1" "b' = b2" "g' = g2" by simp_all
  have 1: "bs' = map (afterHit cv b) (blk # rest)"
    by (simp add: res ih same blk1)
  have 2: "ball_x b' = ball_x b \<and> ball_y b' = ball_y b"
    by (simp add: res ih pos)
  have 3: "g' = g\<lparr>ballChain := ballChain g + pickupsTouched cv b (blk # rest),
            score := score g + 10 * pickupsTouched cv b (blk # rest)
                     + 5 * standardsTouched cv b (blk # rest)\<rparr>"
  proof (cases "touched cv b blk")
    case False
    then show ?thesis
      by (simp add: res ih(4) t g1 pickupsTouched_def standardsTouched_def)
  next
    case True
    then show ?thesis
      by (cases "btype blk")
         (simp_all add: res ih(4) t g1 pickupsTouched_def standardsTouched_def)
  qed
  from 1 2 3 show ?case by simp
qed

lemma collisionPass_v1_effect:
  "blocks (snd (collisionPass_v1 cv b g)) = map (afterHit cv b) (blocks g) \<and>
   ballChain (snd (collisionPass_v1 cv b g)) = ballChain g + pickupsTouched cv b (blocks g) \<and>
   score (snd (collisionPass_v1 cv b g)) =
     score g + 10 * pickupsTouched cv b (blocks g) + 5 * standardsTouched cv b (blocks g)"
proof -
  obtain bs' b' g' where c: "collideBlocks cv (blocks g) b g = (bs', b', g')"
    by (cases "collideBlocks cv (blocks g) b g") auto
  from collideBlocks_effect [OF c] c show ?thesis
    by (simp add: collisionPass_v1_def)
qed

lemma handleCollisions_v1_snd:
  "snd (handleCollisions_v1 cv b g) = pruneBlocks (snd (collisionPass_v1 cv b g))"
  by (simp add: handleCollisions_v1_def split: prod.splits)

lemma afterHit_cell: "col (afterHit cv b x) = col x \<and> row (afterHit cv b x) = row x"
  by (cases "btype x") (simp_all add: afterHit_def)

lemma inCell_collisionPass:
  "inCell blk (snd (collisionPass_v1 cv b g)) = map (afterHit cv b) (inCell blk g)"
proof -
  have "(\<lambda>x. col x = col blk \<and> row x = row blk) \<circ> afterHit cv b =
        (\<lambda>x. col x = col blk \<and> row x = row blk)"
    by (rule ext) (simp add: afterHit_cell)
  then show ?thesis
    using collisionPass_v1_effect [of cv b g] by (simp add: inCell_def filter_map)
qed

lemma inCell_pruneBlocks:
  "inCell blk (pruneBlocks g) = filter (\<lambda>x. \<not> destroyed x) (inCell blk g)"
  by (auto simp: inCell_def pruneBlocks_def intro: filter_cong)

lemma inCell_handleCollisions:
  "inCell blk (snd (handleCollisions_v1 cv b g)) =
     filter (\<lambda>x. \<not> destroyed x) (map (afterHit cv b) (inCell blk g))"
  by (simp add: handleCollisions_v1_snd inCell_pruneBlocks inCell_collisionPass)

lemma passes_v1_snoc:
  "passes_v1 cv (bs @ [b]) g = snd (handleCollisions_v1 cv b (passes_v1 cv bs g))"
  by (induction bs arbitrary: g) simp_all








lemma count_split:
  "length (filter P xs) = length (filter P (filter Q xs)) + length (filter P (filter (\<lambda>x. \<not> Q x) xs))"
  by (induction xs) auto

lemma pickupsTouched_split:
  "pickupsTouched cv b (blocks g) =
     pickupsTouched cv b (inCell blk g) + pickupsTouched cv b (otherBlocks blk g)"
  unfolding pickupsTouched_def inCell_def otherBlocks_def by (rule count_split)

lemma standardsTouched_split:
  "standardsTouched cv b (blocks g) =
     standardsTouched cv b (inCell blk g) + standardsTouched cv b (otherBlocks blk g)"
  unfolding standardsTouched_def inCell_def otherBlocks_def by (rule count_split)

lemma handleCollisions_v1_counts:
  "ballChain (snd (handleCollisions_v1 cv b g)) = ballChain g + pickupsTouched cv b (blocks g) \<and>
   score (snd (handleCollisions_v1 cv b g)) =
     score g + 10 * pickupsTouched cv b (blocks g) + 5 * standardsTouched cv b (blocks g)"
  using collisionPass_v1_effect [of cv b g]
  by (simp add: handleCollisions_v1_snd pruneBlocks_def)

lemmas hit_eval = blockCollides_def Block_rect_def samplePickup_def Block_def ballAt_def
  circleRectCollision_def clamp_def sampleCanvas_def GRID_SIZE_def GAME_WIDTH_def
  GRID_COLUMNS_def BALL_RADIUS_def f64_eval

text \<open>
  C5. The claim is that when a ball collides with a pickup, the chain count grows by
  exactly 1 and the score by exactly 10 in that collision pass. The pass runs over every
  block, and the ball can touch more than one: with the ball between the sample pickup and
  a standard block in the next column the score grows by 15 in the pass, and with the ball
  between the sample pickup and a second pickup below it the chain count grows by 2.
\<close>

theorem pickup_pass_counterexample:
  "btype samplePickup = Pickup \<and> \<not> destroyed samplePickup
   \<and> blockCollides sampleCanvas (ballAt 60 30) samplePickup
   \<and> score (snd (handleCollisions_v1 sampleCanvas (ballAt 60 30) besideSession)) =
       score besideSession + 15
   \<and> blockCollides sampleCanvas (ballAt 30 60) samplePickup
   \<and> ballChain (snd (handleCollisions_v1 sampleCanvas (ballAt 30 60) stackedSession)) =
       ballChain stackedSession + 2"
proof -
  have a: "btype samplePickup = Pickup" "\<not> destroyed samplePickup"
    by (simp_all add: samplePickup_def Block_def)
  have h1: "blockCollides sampleCanvas (ballAt 60 30) samplePickup"
    and h2: "blockCollides sampleCanvas (ballAt 60 30) (Block (Some 1) 0 3 Standard)"
    and h3: "blockCollides sampleCanvas (ballAt 30 60) samplePickup"
    and h4: "blockCollides sampleCanvas (ballAt 30 60) (Block (Some 0) 1 1 Pickup)"
    by (simp_all add: hit_eval)
  have s: "score (snd (handleCollisions_v1 sampleCanvas (ballAt 60 30) besideSession)) =
      score besideSession + 15"
    using handleCollisions_v1_counts [of sampleCanvas "ballAt 60 30" besideSession] h1 h2
    by (simp add: besideSession_def pickupsTouched_def standardsTouched_def touched_def
        samplePickup_def Block_def)
  have c: "ballChain (snd (handleCollisions_v1 sampleCanvas (ballAt 30 60) stackedSession)) =
      ballChain stackedSession + 2"
    using handleCollisions_v1_counts [of sampleCanvas "ballAt 30 60" stackedSession] h3 h4
    by (simp add: stackedSession_def pickupsTouched_def touched_def samplePickup_def Block_def)
  from a h1 h3 s c show ?thesis by blast
qed

text \<open>
  C5, as amended. When a ball touches a pickup that is not destroyed, whatever its
  strength, the loop body marks it destroyed at once, adds exactly 1 to the chain count and
  exactly 10 to the score. Over the whole pass the chain count grows by 1 for this pickup
  plus 1 for every other pickup touched, and the score by 10 for this pickup plus the
  awards of the other blocks touched (10 for a pickup, 5 for a standard block): by exactly
  1 and exactly 10 when the ball touches no other block in the pass. The pickup is in the
  collection, destroyed, before the filter and absent after it.
\<close>

theorem pickup_collected:
  assumes "btype blk = Pickup" and "\<not> destroyed blk" and "blockCollides cv b blk"
    and "inCell blk g = [blk]"
  shows "fst (collideBlock cv blk b g) = blk\<lparr>destroyed := True\<rparr>
       \<and> snd (snd (collideBlock cv blk b g)) =
           g\<lparr>ballChain := ballChain g + 1, score := score g + 10\<rparr>
       \<and> ballChain (snd (handleCollisions_v1 cv b g)) =
           ballChain g + 1 + pickupsTouched cv b (otherBlocks blk g)
       \<and> score (snd (handleCollisions_v1 cv b g)) =
           score g + 10 + 10 * pickupsTouched cv b (otherBlocks blk g)
             + 5 * standardsTouched cv b (otherBlocks blk g)
       \<and> (pickupsTouched cv b (otherBlocks blk g) = 0
            \<and> standardsTouched cv b (otherBlocks blk g) = 0 \<longrightarrow>
          ballChain (snd (handleCollisions_v1 cv b g)) = ballChain g + 1
          \<and> score (snd (handleCollisions_v1 cv b g)) = score g + 10)
       \<and> inCell blk (snd (collisionPass_v1 cv b g)) = [blk\<lparr>destroyed := True\<rparr>]
       \<and> inCell blk (snd (handleCollisions_v1 cv b g)) = []"
proof -
  have t: "touched cv b blk" using assms(2,3) by (simp add: touched_def)
  have ah: "afterHit cv b blk = blk\<lparr>destroyed := True\<rparr>"
    using t assms(1) by (simp add: afterHit_def)
  have 1: "fst (collideBlock cv blk b g) = blk\<lparr>destroyed := True\<rparr>"
    using ah by (simp add: collideBlock_block)
  have 2: "snd (snd (collideBlock cv blk b g)) = g\<lparr>ballChain := ballChain g + 1, score := score g + 10\<rparr>"
    using t assms(1) by (simp add: collideBlock_game)
  have p: "pickupsTouched cv b (inCell blk g) = 1" "standardsTouched cv b (inCell blk g) = 0"
    using t assms(1,4) by (simp_all add: pickupsTouched_def standardsTouched_def)
  have 3: "ballChain (snd (handleCollisions_v1 cv b g)) =
           ballChain g + 1 + pickupsTouched cv b (otherBlocks blk g)"
    using handleCollisions_v1_counts [of cv b g] pickupsTouched_split [of cv b g blk] p by simp
  have 4: "score (snd (handleCollisions_v1 cv b g)) =
           score g + 10 + 10 * pickupsTouched cv b (otherBlocks blk g)
             + 5 * standardsTouched cv b (otherBlocks blk g)"
    using handleCollisions_v1_counts [of cv b g] pickupsTouched_split [of cv b g blk]
      standardsTouched_split [of cv b g blk] p by simp
  have 5: "inCell blk (snd (collisionPass_v1 cv b g)) = [blk\<lparr>destroyed := True\<rparr>]"
    using ah assms(4) by (simp add: inCell_collisionPass)
  have 6: "inCell blk (snd (handleCollisions_v1 cv b g)) = []"
    using ah assms(4) by (simp add: inCell_handleCollisions)
  from 1 2 3 4 5 6 show ?thesis by simp
qed

lemma sample_pickup_hit: "blockCollides sampleCanvas (ballAt 30 30) (samplePickup\<lparr>strength := 5\<rparr>)"
  by (simp add: hit_eval)

theorem pickup_collected_witness:
  "btype (samplePickup\<lparr>strength := 5\<rparr>) = Pickup \<and> \<not> destroyed (samplePickup\<lparr>strength := 5\<rparr>)
   \<and> blockCollides sampleCanvas (ballAt 30 30) (samplePickup\<lparr>strength := 5\<rparr>)
   \<and> ballChain (snd (handleCollisions_v1 sampleCanvas (ballAt 30 30)
        ((newSession sampleCanvas 1)\<lparr>blocks := [samplePickup\<lparr>strength := 5\<rparr>]\<rparr>))) = 2
   \<and> score (snd (handleCollisions_v1 sampleCanvas (ballAt 30 30)
        ((newSession sampleCanvas 1)\<lparr>blocks := [samplePickup\<lparr>strength := 5\<rparr>]\<rparr>))) = 10
   \<and> blocks (snd (handleCollisions_v1 sampleCanvas (ballAt 30 30)
        ((newSession sampleCanvas 1)\<lparr>blocks := [samplePickup\<lparr>strength := 5\<rparr>]\<rparr>))) = []
   \<and> blockCollides sampleCanvas (ballAt 60 30) samplePickup
   \<and> inCell samplePickup besideSession = [samplePickup]
   \<and> ballChain (snd (handleCollisions_v1 sampleCanvas (ballAt 60 30) besideSession)) = 2
   \<and> score (snd (handleCollisions_v1 sampleCanvas (ballAt 60 30) besideSession)) = 15
   \<and> inCell samplePickup (snd (handleCollisions_v1 sampleCanvas (ballAt 60 30) besideSession)) = []"
proof -
  let ?p = "samplePickup\<lparr>strength := 5\<rparr>"
  let ?g = "(newSession sampleCanvas 1)\<lparr>blocks := [?p]\<rparr>"
  have a: "btype ?p = Pickup" "\<not> destroyed ?p"
    by (simp_all add: samplePickup_def Block_def)
  have c: "inCell ?p ?g = [?p]" by (simp add: inCell_def)
  have o: "otherBlocks ?p ?g = []" by (simp add: otherBlocks_def)
  have all: "inCell ?p (snd (handleCollisions_v1 sampleCanvas (ballAt 30 30) ?g)) =
      blocks (snd (handleCollisions_v1 sampleCanvas (ballAt 30 30) ?g))"
    by (simp add: inCell_def handleCollisions_v1_snd pruneBlocks_def collisionPass_v1_effect
        afterHit_cell)
  have a': "btype samplePickup = Pickup" "\<not> destroyed samplePickup"
    by (simp_all add: samplePickup_def Block_def)
  have h: "blockCollides sampleCanvas (ballAt 60 30) samplePickup"
    and h': "blockCollides sampleCanvas (ballAt 60 30) (Block (Some 1) 0 3 Standard)"
    by (simp_all add: hit_eval)
  have c': "inCell samplePickup besideSession = [samplePickup]"
    by (simp add: inCell_def besideSession_def samplePickup_def Block_def)
  have o': "otherBlocks samplePickup besideSession = [Block (Some 1) 0 3 Standard]"
    by (simp add: otherBlocks_def besideSession_def samplePickup_def Block_def)
  have n: "pickupsTouched sampleCanvas (ballAt 60 30) [Block (Some 1) 0 3 Standard] = 0"
    "standardsTouched sampleCanvas (ballAt 60 30) [Block (Some 1) 0 3 Standard] = 1"
    using h' by (simp_all add: pickupsTouched_def standardsTouched_def touched_def Block_def)
  have first: "ballChain (snd (handleCollisions_v1 sampleCanvas (ballAt 30 30) ?g)) = 2
     \<and> score (snd (handleCollisions_v1 sampleCanvas (ballAt 30 30) ?g)) = 10
     \<and> blocks (snd (handleCollisions_v1 sampleCanvas (ballAt 30 30) ?g)) = []"
    using pickup_collected [OF a sample_pickup_hit c] o all
    by (simp add: pickupsTouched_def standardsTouched_def newSession_def)
  have second: "ballChain (snd (handleCollisions_v1 sampleCanvas (ballAt 60 30) besideSession)) = 2
     \<and> score (snd (handleCollisions_v1 sampleCanvas (ballAt 60 30) besideSession)) = 15
     \<and> inCell samplePickup (snd (handleCollisions_v1 sampleCanvas (ballAt 60 30) besideSession)) = []"
    using pickup_collected [OF a' h c'] o' n
    by (simp add: besideSession_def newSession_def)
  from a sample_pickup_hit h c' first second show ?thesis by blast
qed

section \<open>The population cap of the barriers\<close>

lemma pickCandidate_barriers: "barrierBlocks (snd (pickCandidate cv g)) = barrierBlocks g"
proof -
  obtain c g' where pc: "pickCandidate cv g = (c, g')" by (cases "pickCandidate cv g")
  from pickCandidate_frame [OF pc] pc show ?thesis by auto
qed

lemma spawnFloatingBlock_barriers:
  "barrierBlocks (spawnFloatingBlock cv force g) =
     (if isGameOver g then barrierBlocks g
      else if length (barrierBlocks g) \<ge> MAX_FLOATING_BLOCKS
           then (if force then tl (barrierBlocks g) @ [fst (pickCandidate cv g)] else barrierBlocks g)
           else barrierBlocks g @ [fst (pickCandidate cv g)])"
  using pickCandidate_barriers [of cv g]
  by (auto simp: spawnFloatingBlock_def Let_def split: prod.splits)

lemma spawnFloatingBlock_capped: "capped g \<Longrightarrow> capped (spawnFloatingBlock cv force g)"
  by (auto simp: capped_def spawnFloatingBlock_barriers MAX_FLOATING_BLOCKS_def)

lemma seedLoop_capped: "capped g \<Longrightarrow> capped (seedLoop cv n g)"
  by (induction n arbitrary: g) (simp_all add: spawnFloatingBlock_capped)

lemma barrierStep_capped: "capped g \<Longrightarrow> capped (snd (barrierStep cv i b g))"
  by (simp add: barrierStep_def Let_def capped_def spawnFloatingBlock_barriers
      MAX_FLOATING_BLOCKS_def)

lemma hcLoop_capped: "capped g \<Longrightarrow> capped (snd (hcLoop cv i b g))"
proof (induction cv i b g rule: hcLoop.induct)
  case (1 cv i b g)
  show ?case
  proof (cases "i < length (barrierBlocks g)")
    case False
    with 1 show ?thesis by (subst hcLoop.simps) simp
  next
    case True
    obtain b' g' where st: "barrierStep cv i b g = (b', g')" by (cases "barrierStep cv i b g")
    with barrierStep_capped [OF "1.prems", of cv i b] have "capped g'" by simp
    from "1.IH" [OF True st [symmetric] this] True st show ?thesis
      by (subst hcLoop.simps) simp
  qed
qed

lemma handleCollisions_v2_capped: "capped g \<Longrightarrow> capped (snd (handleCollisions_v2 cv b g))"
proof -
  assume "capped g"
  obtain b' g' where l: "hcLoop cv 0 b g = (b', g')" by (cases "hcLoop cv 0 b g")
  with hcLoop_capped [OF \<open>capped g\<close>, of cv 0 b]
  have "length (barrierBlocks g') \<le> MAX_FLOATING_BLOCKS"
    by (simp add: capped_def)
  moreover have "length (filter (\<lambda>br. \<not> bar_destroyed br) (barrierBlocks g')) \<le> length (barrierBlocks g')"
    by simp
  ultimately have "length (filter (\<lambda>br. \<not> bar_destroyed br) (barrierBlocks g')) \<le> MAX_FLOATING_BLOCKS"
    by (rule order_trans [rotated])
  then show ?thesis
    by (simp add: handleCollisions_v2_def capped_def l)
qed

lemma capped_fields [simp]:
  "capped (g\<lparr>restingBalls := rb\<rparr>) = capped g"
  "capped (g\<lparr>activeBallChainLanding := al\<rparr>) = capped g"
  "capped (g\<lparr>balls := bl\<rparr>) = capped g"
  "capped (g\<lparr>launchTimer := lt\<rparr>) = capped g"
  "capped (g\<lparr>pendingBalls := pb\<rparr>) = capped g"
  "capped (g\<lparr>isLaunching := il\<rparr>) = capped g"
  "capped (g\<lparr>isAiming := ia\<rparr>) = capped g"
  "capped (g\<lparr>turnAngle := ta\<rparr>) = capped g"
  "capped (g\<lparr>turn := tn\<rparr>) = capped g"
  "capped (g\<lparr>baseBallPosition := bp\<rparr>) = capped g"
  by (simp_all add: capped_def)

lemma settle_capped: "capped g \<Longrightarrow> capped (snd (settle b g))"
  by (simp add: settle_def Let_def)

lemma ballsLoop_v2_capped: "capped g \<Longrightarrow> capped (snd (ballsLoop_v2 cv delta bs g))"
proof (induction bs arbitrary: g)
  case Nil
  then show ?case by simp
next
  case (Cons b rest)
  show ?case
  proof (cases "resting b")
    case True
    with Cons.IH [OF Cons.prems] show ?thesis by (simp add: case_prod_beta)
  next
    case False
    let ?b1 = "Ball_update_v2 cv delta b"
    have "capped (snd (handleCollisions_v2 cv ?b1 g))"
      using Cons.prems by (rule handleCollisions_v2_capped)
    then have "capped (snd (settle (fst (handleCollisions_v2 cv ?b1 g)) (snd (handleCollisions_v2 cv ?b1 g))))"
      by (rule settle_capped)
    from Cons.IH [OF this] False show ?thesis
      by (simp add: Let_def case_prod_beta)
  qed
qed

lemma launchStep_v2_capped: "capped g \<Longrightarrow> capped (launchStep_v2 cv delta g)"
  by (simp add: launchStep_v2_def Let_def spawnFloatingBlock_capped)

lemma tickBody_v2_capped: "capped g \<Longrightarrow> capped (tickBody_v2 cv delta g)"
proof -
  assume "capped g"
  then have "capped (launchStep_v2 cv delta g)" by (rule launchStep_v2_capped)
  from ballsLoop_v2_capped [OF this, of cv delta "balls (launchStep_v2 cv delta g)"]
  show ?thesis by (simp add: tickBody_v2_def Let_def case_prod_beta)
qed

lemma update_v2_capped: "capped g \<Longrightarrow> capped (update_v2 cv delta g)"
  using tickBody_v2_capped [of g cv delta]
  by (simp add: update_v2_def Let_def finishTurn_v2_def)

lemma launchTurn_capped: "capped g \<Longrightarrow> capped (launchTurn a g)"
  by (simp add: launchTurn_def capped_def)

text \<open>
  C8. From a collection of at most 24 barriers, a call of \<^verbatim>\<open>spawnFloatingBlock\<close>
  leaves at most 24. At the cap an unforced call leaves the collection as it is; a forced
  call, in a session that is not over, drops the first barrier and appends the candidate.
  Below the cap the candidate is appended. The six forced calls of
  \<^verbatim>\<open>seedFloatingBlocks\<close>, a collision pass (whose forced spawns run inside the loop)
  and a whole tick keep the bound.
\<close>

theorem barrier_population_cap:
  assumes "capped g"
  shows "capped (spawnFloatingBlock cv force g)
       \<and> (\<not> force \<and> length (barrierBlocks g) = MAX_FLOATING_BLOCKS \<longrightarrow>
            barrierBlocks (spawnFloatingBlock cv force g) = barrierBlocks g)
       \<and> (force \<and> \<not> isGameOver g \<and> length (barrierBlocks g) = MAX_FLOATING_BLOCKS \<longrightarrow>
            barrierBlocks (spawnFloatingBlock cv force g) =
              tl (barrierBlocks g) @ [fst (pickCandidate cv g)])
       \<and> (\<not> isGameOver g \<and> length (barrierBlocks g) < MAX_FLOATING_BLOCKS \<longrightarrow>
            barrierBlocks (spawnFloatingBlock cv force g) =
              barrierBlocks g @ [fst (pickCandidate cv g)])
       \<and> capped (seedFloatingBlocks cv g)
       \<and> capped (snd (handleCollisions_v2 cv b g))
       \<and> capped (update_v2 cv delta g)"
  using assms spawnFloatingBlock_capped [of g cv force] seedLoop_capped [of g cv 6]
    handleCollisions_v2_capped [of g cv b] update_v2_capped [of g cv delta]
  by (simp add: spawnFloatingBlock_barriers seedFloatingBlocks_def)

theorem barrier_population_cap_witness:
  "capped fullSession \<and> \<not> isGameOver fullSession
   \<and> length (barrierBlocks fullSession) = MAX_FLOATING_BLOCKS
   \<and> barrierBlocks (spawnFloatingBlock sampleCanvas False fullSession) = barrierBlocks fullSession
   \<and> barrierBlocks (spawnFloatingBlock sampleCanvas True fullSession) =
       replicate 23 (BarrierBlock 100 100 54 3) @ [fst (pickCandidate sampleCanvas fullSession)]
   \<and> length (barrierBlocks (spawnFloatingBlock sampleCanvas True fullSession)) = MAX_FLOATING_BLOCKS"
proof -
  have c: "capped fullSession"
    by (simp add: capped_def fullSession_def MAX_FLOATING_BLOCKS_def)
  have l: "length (barrierBlocks fullSession) = MAX_FLOATING_BLOCKS"
    by (simp add: fullSession_def MAX_FLOATING_BLOCKS_def)
  have n: "\<not> isGameOver fullSession"
    by (simp add: fullSession_def newSession_def)
  have t: "tl (barrierBlocks fullSession) = replicate 23 (BarrierBlock 100 100 54 3)"
    by (simp add: fullSession_def numeral_eq_Suc)
  from barrier_population_cap [OF c, of sampleCanvas False "ballAt 0 0" 0]
    barrier_population_cap [OF c, of sampleCanvas True "ballAt 0 0" 0] c l n t
  show ?thesis by (simp add: MAX_FLOATING_BLOCKS_def)
qed

section \<open>What a tick leaves unchanged\<close>

lemma turnView_fields:
  assumes "turnView g' = turnView g"
  shows "balls g' = balls g" and "pendingBalls g' = pendingBalls g"
    and "baseBallPosition g' = baseBallPosition g" and "baseY g' = baseY g"
    and "turnAngle g' = turnAngle g" and "isAiming g' = isAiming g"
    and "isLaunching g' = isLaunching g" and "turn g' = turn g"
    and "isGameOver g' = isGameOver g" and "launchTimer g' = launchTimer g"
    and "restingBalls g' = restingBalls g"
    and "activeBallChainLanding g' = activeBallChainLanding g"
proof -
  have f: "h (turnView g') = h (turnView g)" for h :: "game \<Rightarrow> 'a"
    using assms by simp
  show "balls g' = balls g" using f [of balls] by (simp add: turnView_def)
  show "pendingBalls g' = pendingBalls g" using f [of pendingBalls] by (simp add: turnView_def)
  show "baseBallPosition g' = baseBallPosition g"
    using f [of baseBallPosition] by (simp add: turnView_def)
  show "baseY g' = baseY g" using f [of baseY] by (simp add: turnView_def)
  show "turnAngle g' = turnAngle g" using f [of turnAngle] by (simp add: turnView_def)
  show "isAiming g' = isAiming g" using f [of isAiming] by (simp add: turnView_def)
  show "isLaunching g' = isLaunching g" using f [of isLaunching] by (simp add: turnView_def)
  show "turn g' = turn g" using f [of turn] by (simp add: turnView_def)
  show "isGameOver g' = isGameOver g" using f [of isGameOver] by (simp add: turnView_def)
  show "launchTimer g' = launchTimer g" using f [of launchTimer] by (simp add: turnView_def)
  show "restingBalls g' = restingBalls g" using f [of restingBalls] by (simp add: turnView_def)
  show "activeBallChainLanding g' = activeBallChainLanding g"
    using f [of activeBallChainLanding] by (simp add: turnView_def)
qed

lemma turnView_updates [simp]:
  "turnView (g\<lparr>rng := s\<rparr>) = turnView g"
  "turnView (g\<lparr>score := sc\<rparr>) = turnView g"
  "turnView (g\<lparr>ballChain := bc\<rparr>) = turnView g"
  "turnView (g\<lparr>blocks := bl\<rparr>) = turnView g"
  "turnView (g\<lparr>barrierBlocks := bb\<rparr>) = turnView g"
  by (simp_all add: turnView_def)

lemma pickCandidate_view: "turnView (snd (pickCandidate cv g)) = turnView g"
proof -
  obtain c g' where pc: "pickCandidate cv g = (c, g')" by (cases "pickCandidate cv g")
  from pickCandidate_frame [OF pc] pc show ?thesis by auto
qed

lemma spawnFloatingBlock_view: "turnView (spawnFloatingBlock cv force g) = turnView g"
  using pickCandidate_view [of cv g]
  by (simp add: spawnFloatingBlock_def Let_def case_prod_beta)

lemma barrierStep_view: "turnView (snd (barrierStep cv i b g)) = turnView g"
  by (simp add: barrierStep_def Let_def spawnFloatingBlock_view)

lemma barrierStep_ball:
  "ball_x (fst (barrierStep cv i b g)) = ball_x b \<and> ball_y (fst (barrierStep cv i b g)) = ball_y b
   \<and> resting (fst (barrierStep cv i b g)) = resting b"
  by (simp add: barrierStep_def Let_def)

lemma hcLoop_view: "turnView (snd (hcLoop cv i b g)) = turnView g"
proof (induction cv i b g rule: hcLoop.induct)
  case (1 cv i b g)
  show ?case
  proof (cases "i < length (barrierBlocks g)")
    case False
    then show ?thesis by (subst hcLoop.simps) simp
  next
    case True
    obtain b' g' where st: "barrierStep cv i b g = (b', g')" by (cases "barrierStep cv i b g")
    have "turnView g' = turnView g" using barrierStep_view [of cv i b g] st by simp
    with "1.IH" [OF True st [symmetric]] True st show ?thesis
      by (subst hcLoop.simps) simp
  qed
qed

lemma hcLoop_ball:
  "ball_x (fst (hcLoop cv i b g)) = ball_x b \<and> ball_y (fst (hcLoop cv i b g)) = ball_y b
   \<and> resting (fst (hcLoop cv i b g)) = resting b"
proof (induction cv i b g rule: hcLoop.induct)
  case (1 cv i b g)
  show ?case
  proof (cases "i < length (barrierBlocks g)")
    case False
    then show ?thesis by (subst hcLoop.simps, subst hcLoop.simps, subst hcLoop.simps) simp
  next
    case True
    obtain b' g' where st: "barrierStep cv i b g = (b', g')" by (cases "barrierStep cv i b g")
    have "ball_x b' = ball_x b \<and> ball_y b' = ball_y b \<and> resting b' = resting b"
      using barrierStep_ball [of cv i b g] st by simp
    moreover have "hcLoop cv i b g = hcLoop cv (Suc i) b' g'"
      using True st by (subst hcLoop.simps) simp
    ultimately show ?thesis using "1.IH" [OF True st [symmetric]] by simp
  qed
qed

lemma handleCollisions_v2_view: "turnView (snd (handleCollisions_v2 cv b g)) = turnView g"
  using hcLoop_view [of cv 0 b g] by (simp add: handleCollisions_v2_def case_prod_beta)

lemma handleCollisions_v2_ball:
  "ball_x (fst (handleCollisions_v2 cv b g)) = ball_x b
   \<and> ball_y (fst (handleCollisions_v2 cv b g)) = ball_y b
   \<and> resting (fst (handleCollisions_v2 cv b g)) = resting b"
  using hcLoop_ball [of cv 0 b g] by (simp add: handleCollisions_v2_def case_prod_beta)

lemma handleCollisions_v1_view: "turnView (snd (handleCollisions_v1 cv b g)) = turnView g"
proof -
  obtain bs' b' g' where c: "collideBlocks cv (blocks g) b g = (bs', b', g')"
    by (cases "collideBlocks cv (blocks g) b g") auto
  from collideBlocks_effect [OF c] c show ?thesis
    by (simp add: handleCollisions_v1_def collisionPass_v1_def pruneBlocks_def)
qed

lemma handleCollisions_v1_ball:
  "ball_x (fst (handleCollisions_v1 cv b g)) = ball_x b
   \<and> ball_y (fst (handleCollisions_v1 cv b g)) = ball_y b"
proof -
  obtain bs' b' g' where c: "collideBlocks cv (blocks g) b g = (bs', b', g')"
    by (cases "collideBlocks cv (blocks g) b g") auto
  from collideBlocks_effect [OF c] c show ?thesis
    by (simp add: handleCollisions_v1_def collisionPass_v1_def pruneBlocks_def)
qed

lemma loopView_fields:
  assumes "loopView g' = loopView g"
  shows "pendingBalls g' = pendingBalls g"
    and "baseBallPosition g' = baseBallPosition g" and "baseY g' = baseY g"
    and "turnAngle g' = turnAngle g" and "isAiming g' = isAiming g"
    and "isLaunching g' = isLaunching g" and "turn g' = turn g"
    and "isGameOver g' = isGameOver g" and "launchTimer g' = launchTimer g"
proof -
  have f: "h (loopView g') = h (loopView g)" for h :: "game \<Rightarrow> 'a"
    using assms by simp
  show "pendingBalls g' = pendingBalls g"
    using f [of pendingBalls] by (simp add: loopView_def turnView_def)
  show "baseBallPosition g' = baseBallPosition g"
    using f [of baseBallPosition] by (simp add: loopView_def turnView_def)
  show "baseY g' = baseY g" using f [of baseY] by (simp add: loopView_def turnView_def)
  show "turnAngle g' = turnAngle g" using f [of turnAngle] by (simp add: loopView_def turnView_def)
  show "isAiming g' = isAiming g" using f [of isAiming] by (simp add: loopView_def turnView_def)
  show "isLaunching g' = isLaunching g"
    using f [of isLaunching] by (simp add: loopView_def turnView_def)
  show "turn g' = turn g" using f [of turn] by (simp add: loopView_def turnView_def)
  show "isGameOver g' = isGameOver g"
    using f [of isGameOver] by (simp add: loopView_def turnView_def)
  show "launchTimer g' = launchTimer g"
    using f [of launchTimer] by (simp add: loopView_def turnView_def)
qed

lemma loopView_of_turnView: "turnView g' = turnView g \<Longrightarrow> loopView g' = loopView g"
  by (simp add: loopView_def)

lemma loopView_updates [simp]:
  "loopView (g\<lparr>balls := bl\<rparr>) = loopView g"
  "loopView (g\<lparr>restingBalls := rb\<rparr>) = loopView g"
  "loopView (g\<lparr>activeBallChainLanding := al\<rparr>) = loopView g"
  by (simp_all add: loopView_def turnView_def)

lemma keepsLanding_refl: "keepsLanding g g"
  by (simp add: keepsLanding_def)

lemma keepsLanding_trans: "keepsLanding g g1 \<Longrightarrow> keepsLanding g1 g2 \<Longrightarrow> keepsLanding g g2"
  by (auto simp: keepsLanding_def)

lemma keepsLanding_same:
  "restingBalls g' = restingBalls g \<Longrightarrow> activeBallChainLanding g' = activeBallChainLanding g \<Longrightarrow>
   keepsLanding g g'"
  by (simp add: keepsLanding_def landingInv_def firstRested_def)

lemma keepsLanding_view: "turnView g' = turnView g \<Longrightarrow> keepsLanding g g'"
  by (rule keepsLanding_same) (rule turnView_fields, assumption)+

lemma settle_loopView: "loopView (snd (settle b g)) = loopView g"
  by (simp add: settle_def Let_def)

lemma settle_keepsLanding: "keepsLanding g (snd (settle b g))"
  by (auto simp: settle_def Let_def keepsLanding_def landingInv_def firstRested_def setResting_def
      split: list.splits option.splits)

lemma ballsLoop_v2_frame:
  "loopView (snd (ballsLoop_v2 cv delta bs g)) = loopView g
   \<and> keepsLanding g (snd (ballsLoop_v2 cv delta bs g))"
proof (induction bs arbitrary: g)
  case Nil
  show ?case by (simp add: keepsLanding_refl)
next
  case (Cons b rest)
  show ?case
  proof (cases "resting b")
    case True
    with Cons.IH [of g] show ?thesis by (simp add: case_prod_beta)
  next
    case False
    let ?h = "handleCollisions_v2 cv (Ball_update_v2 cv delta b) g"
    let ?s = "settle (fst ?h) (snd ?h)"
    have v1: "loopView (snd ?h) = loopView g"
      by (intro loopView_of_turnView handleCollisions_v2_view)
    have k1: "keepsLanding g (snd ?h)"
      by (intro keepsLanding_view handleCollisions_v2_view)
    have v2: "loopView (snd ?s) = loopView g" using v1 by (simp add: settle_loopView)
    have k2: "keepsLanding g (snd ?s)"
      using k1 settle_keepsLanding by (rule keepsLanding_trans)
    have e: "snd (ballsLoop_v2 cv delta (b # rest) g) = snd (ballsLoop_v2 cv delta rest (snd ?s))"
      using False by (simp add: Let_def case_prod_beta)
    have "keepsLanding g (snd (ballsLoop_v2 cv delta rest (snd ?s)))"
      using k2 Cons.IH [of "snd ?s"] by (blast intro: keepsLanding_trans)
    with Cons.IH [of "snd ?s"] v2 show ?thesis
      unfolding e by simp
  qed
qed

lemma ballsLoop_v1_frame:
  "loopView (snd (ballsLoop_v1 cv delta bs g)) = loopView g
   \<and> keepsLanding g (snd (ballsLoop_v1 cv delta bs g))"
proof (induction bs arbitrary: g)
  case Nil
  show ?case by (simp add: keepsLanding_refl)
next
  case (Cons b rest)
  show ?case
  proof (cases "resting b")
    case True
    with Cons.IH [of g] show ?thesis by (simp add: case_prod_beta)
  next
    case False
    let ?h = "handleCollisions_v1 cv (Ball_update_v1 cv delta b) g"
    let ?s = "settle (fst ?h) (snd ?h)"
    have v1: "loopView (snd ?h) = loopView g"
      by (intro loopView_of_turnView handleCollisions_v1_view)
    have k1: "keepsLanding g (snd ?h)"
      by (intro keepsLanding_view handleCollisions_v1_view)
    have v2: "loopView (snd ?s) = loopView g" using v1 by (simp add: settle_loopView)
    have k2: "keepsLanding g (snd ?s)"
      using k1 settle_keepsLanding by (rule keepsLanding_trans)
    have e: "snd (ballsLoop_v1 cv delta (b # rest) g) = snd (ballsLoop_v1 cv delta rest (snd ?s))"
      using False by (simp add: Let_def case_prod_beta)
    have "keepsLanding g (snd (ballsLoop_v1 cv delta rest (snd ?s)))"
      using k2 Cons.IH [of "snd ?s"] by (blast intro: keepsLanding_trans)
    with Cons.IH [of "snd ?s"] v2 show ?thesis
      unfolding e by simp
  qed
qed

lemma launchStep_v2_turnView:
  "turnView (launchStep_v2 cv delta g) =
     (if launchDue delta g then
        turnView (g\<lparr>launchTimer := round64 (1 / 10), pendingBalls := pendingBalls g - 1,
                     balls := balls g @ [Ball_v2 (landingOr g) (round64 (baseY g - BALL_RADIUS)) (angleOf g)]\<rparr>)
      else if isLaunching g then turnView (g\<lparr>launchTimer := round64 (launchTimer g - delta)\<rparr>)
      else turnView g)"
  by (simp add: launchStep_v2_def launchDue_def Let_def spawnFloatingBlock_view landingOr_def
      angleOf_def cong: option.case_cong)

lemma launchStep_v2_fields:
  "pendingBalls (launchStep_v2 cv delta g) =
     (if launchDue delta g then pendingBalls g - 1 else pendingBalls g)"
  "launchTimer (launchStep_v2 cv delta g) =
     (if launchDue delta g then round64 (1 / 10)
      else if isLaunching g then round64 (launchTimer g - delta) else launchTimer g)"
  "balls (launchStep_v2 cv delta g) =
     (if launchDue delta g
      then balls g @ [Ball_v2 (landingOr g) (round64 (baseY g - BALL_RADIUS)) (angleOf g)]
      else balls g)"
  "isLaunching (launchStep_v2 cv delta g) = isLaunching g"
  "isGameOver (launchStep_v2 cv delta g) = isGameOver g"
  "turn (launchStep_v2 cv delta g) = turn g"
  "baseBallPosition (launchStep_v2 cv delta g) = baseBallPosition g"
  "restingBalls (launchStep_v2 cv delta g) = restingBalls g"
  "activeBallChainLanding (launchStep_v2 cv delta g) = activeBallChainLanding g"
proof -
  have f: "h (turnView (launchStep_v2 cv delta g)) =
     h (if launchDue delta g then
        turnView (g\<lparr>launchTimer := round64 (1 / 10), pendingBalls := pendingBalls g - 1,
                     balls := balls g @ [Ball_v2 (landingOr g) (round64 (baseY g - BALL_RADIUS)) (angleOf g)]\<rparr>)
      else if isLaunching g then turnView (g\<lparr>launchTimer := round64 (launchTimer g - delta)\<rparr>)
      else turnView g)" for h :: "game \<Rightarrow> 'a"
    by (simp only: launchStep_v2_turnView)
  show "pendingBalls (launchStep_v2 cv delta g) =
     (if launchDue delta g then pendingBalls g - 1 else pendingBalls g)"
    using f [of pendingBalls] by (simp add: turnView_def)
  show "launchTimer (launchStep_v2 cv delta g) =
     (if launchDue delta g then round64 (1 / 10)
      else if isLaunching g then round64 (launchTimer g - delta) else launchTimer g)"
    using f [of launchTimer] by (simp add: turnView_def)
  show "balls (launchStep_v2 cv delta g) =
     (if launchDue delta g
      then balls g @ [Ball_v2 (landingOr g) (round64 (baseY g - BALL_RADIUS)) (angleOf g)]
      else balls g)"
    using f [of balls] by (simp add: turnView_def)
  show "isLaunching (launchStep_v2 cv delta g) = isLaunching g"
    using f [of isLaunching] by (simp add: turnView_def)
  show "isGameOver (launchStep_v2 cv delta g) = isGameOver g"
    using f [of isGameOver] by (simp add: turnView_def)
  show "turn (launchStep_v2 cv delta g) = turn g"
    using f [of turn] by (simp add: turnView_def)
  show "baseBallPosition (launchStep_v2 cv delta g) = baseBallPosition g"
    using f [of baseBallPosition] by (simp add: turnView_def)
  show "restingBalls (launchStep_v2 cv delta g) = restingBalls g"
    using f [of restingBalls] by (simp add: turnView_def)
  show "activeBallChainLanding (launchStep_v2 cv delta g) = activeBallChainLanding g"
    using f [of activeBallChainLanding] by (simp add: turnView_def)
qed

lemma tickBody_v2_loopView:
  "loopView (tickBody_v2 cv delta g) = loopView (launchStep_v2 cv delta g)"
  using ballsLoop_v2_frame [of cv delta "balls (launchStep_v2 cv delta g)" "launchStep_v2 cv delta g"]
  by (simp add: tickBody_v2_def Let_def case_prod_beta)

lemma tickBody_v2_fields:
  "pendingBalls (tickBody_v2 cv delta g) =
     (if launchDue delta g then pendingBalls g - 1 else pendingBalls g)"
  "launchTimer (tickBody_v2 cv delta g) =
     (if launchDue delta g then round64 (1 / 10)
      else if isLaunching g then round64 (launchTimer g - delta) else launchTimer g)"
  "isLaunching (tickBody_v2 cv delta g) = isLaunching g"
  "isGameOver (tickBody_v2 cv delta g) = isGameOver g"
  "turn (tickBody_v2 cv delta g) = turn g"
  "baseBallPosition (tickBody_v2 cv delta g) = baseBallPosition g"
  using loopView_fields [OF tickBody_v2_loopView, of cv delta g]
  by (simp_all add: launchStep_v2_fields)


lemma update_v2_cases:
  "update_v2 cv delta g =
     (if isGameOver g then g
      else if turnComplete (tickBody_v2 cv delta g) then finishTurn_v2 (tickBody_v2 cv delta g)
      else tickBody_v2 cv delta g)"
  by (simp add: update_v2_def Let_def)

lemma update_v2_fields:
  assumes "\<not> isGameOver g"
  shows "pendingBalls (update_v2 cv delta g) =
           (if launchDue delta g then pendingBalls g - 1 else pendingBalls g)"
    and "launchTimer (update_v2 cv delta g) =
           (if launchDue delta g then round64 (1 / 10)
            else if isLaunching g then round64 (launchTimer g - delta) else launchTimer g)"
    and "isLaunching (update_v2 cv delta g) =
           (isLaunching g \<and> \<not> turnComplete (tickBody_v2 cv delta g))"
    and "\<not> isGameOver (update_v2 cv delta g)"
    and "turn (update_v2 cv delta g) =
           (if turnComplete (tickBody_v2 cv delta g) then Suc (turn g) else turn g)"
  using assms
  by (auto simp: update_v2_cases finishTurn_v2_def tickBody_v2_fields turnComplete_def)

section \<open>The launch sequence\<close>

lemma spawnsBall_v2_iff: "spawnsBall_v2 cv delta g \<longleftrightarrow> \<not> isGameOver g \<and> launchDue delta g"
  by (simp add: spawnsBall_v2_def launchStep_v2_fields)

lemma update_v2_gameOver: "isGameOver g \<Longrightarrow> update_v2 cv delta g = g"
  by (simp add: update_v2_def)

lemma spawn_count:
  "length (spawnTicks_v2 cv i t ds g) + pendingBalls (run_v2 cv ds g) = pendingBalls g"
proof (induction ds arbitrary: g t i)
  case Nil
  show ?case by simp
next
  case (Cons d ds)
  show ?case
  proof (cases "isGameOver g")
    case True
    with Cons.IH [of "Suc i" "t + d" g] show ?thesis
      by (simp add: update_v2_gameOver spawnsBall_v2_iff)
  next
    case False
    from Cons.IH [of "Suc i" "t + d" "update_v2 cv d g"] update_v2_fields(1) [OF False, of cv d]
    show ?thesis
      by (auto simp: spawnsBall_v2_iff False launchDue_def)
  qed
qed

lemma no_spawn_when_over: "isGameOver g \<Longrightarrow> spawnTicks_v2 cv i t ds g = []"
  by (induction ds arbitrary: i t) (simp_all add: update_v2_gameOver spawnsBall_v2_iff)

lemma no_spawn_when_none_pending: "pendingBalls g = 0 \<Longrightarrow> spawnTicks_v2 cv i t ds g = []"
  using spawn_count [of cv i t ds g] by simp

lemma sequencer_none_pending: "sequencer i t ds 0 timer = []"
  by (induction ds arbitrary: i t timer) simp_all

lemma sequencer_fire:
  "0 < p \<Longrightarrow> round64 (timer - d) \<le> 0 \<Longrightarrow>
   sequencer i t (d # ds) p timer =
     (i, t + d) # sequencer (Suc i) (t + d) ds (p - 1) (round64 (1 / 10))"
  by simp

lemma sequencer_wait:
  "\<not> (0 < p \<and> round64 (timer - d) \<le> 0) \<Longrightarrow>
   sequencer i t (d # ds) p timer = sequencer (Suc i) (t + d) ds p (round64 (timer - d))"
  by (subst sequencer.simps) (rule if_not_P)

text \<open>
  The ticks that spawn a ball are those at which the sequencer fires: they depend on the
  pending count and the timer only.
\<close>

lemma spawnTicks_sequencer:
  "isLaunching g \<or> pendingBalls g = 0 \<Longrightarrow> \<not> isGameOver g \<Longrightarrow>
   spawnTicks_v2 cv i t ds g = sequencer i t ds (pendingBalls g) (launchTimer g)"
proof (induction ds arbitrary: g i t)
  case Nil
  show ?case by simp
next
  case (Cons d ds)
  let ?g' = "update_v2 cv d g"
  note no = Cons.prems(2)
  show ?case
  proof (cases "pendingBalls g = 0")
    case True
    then show ?thesis
      by (simp add: no_spawn_when_none_pending sequencer_none_pending del: spawnTicks_v2.simps sequencer.simps)
  next
    case False
    with Cons.prems(1) have l: "isLaunching g" by simp
    have o': "\<not> isGameOver ?g'" using update_v2_fields(4) [OF no] .
    have l': "isLaunching ?g' \<or> pendingBalls ?g' = 0"
      using update_v2_fields(1,3) [OF no, of cv d] l
      by (auto simp: turnComplete_def tickBody_v2_fields launchDue_def)
    note IH = Cons.IH [OF l' o', of "Suc i" "t + d"]
    show ?thesis
    proof (cases "launchDue d g")
      case True
      then have "pendingBalls ?g' = pendingBalls g - 1" "launchTimer ?g' = round64 (1 / 10)"
        using update_v2_fields(1,2) [OF no, of cv d] by simp_all
      moreover from True have "0 < pendingBalls g" "round64 (launchTimer g - d) \<le> 0"
        by (simp_all add: launchDue_def)
      ultimately show ?thesis using IH True no
        by (simp add: spawnsBall_v2_iff sequencer_fire del: sequencer.simps)
    next
      case False
      then have "pendingBalls ?g' = pendingBalls g" "launchTimer ?g' = round64 (launchTimer g - d)"
        using update_v2_fields(1,2) [OF no, of cv d] l by simp_all
      moreover from False l have "\<not> (0 < pendingBalls g \<and> round64 (launchTimer g - d) \<le> 0)"
        by (simp add: launchDue_def)
      ultimately show ?thesis using IH False no
        by (simp add: spawnsBall_v2_iff sequencer_wait del: sequencer.simps)
    qed
  qed
qed

text \<open>
  The timer between two spawns: it stays at or below \<open>1 / 8\<close>, where a subtraction
  rounds by at most \<open>1 / 2 ^ 56\<close>, and a subtraction whose rounded result is not positive
  had an exact result of at most \<open>1 / 2 ^ 56\<close>.
\<close>

lemma timer_start: "1 / 10 \<le> round64 (1 / 10)" "round64 (1 / 10) \<le> 1 / 8"
  by (simp_all add: f64_eval)

lemma timer_step_bound: "timer \<le> 1 / 8 \<Longrightarrow> 0 \<le> d \<Longrightarrow> round64 (timer - d) \<le> 1 / 8"
  using round64_le_pow2 [of "timer - d" "- 3"] by (simp add: pow2_def)

lemma timer_step_error:
  assumes "0 \<le> z" and "z \<le> 1 / 8"
  shows "\<bar>round64 z - z\<bar> \<le> 1 / 2 ^ 56"
  using round64_abs_error [of z "- 3"] assms by (simp add: pow2_def)

lemma round64_pos:
  assumes "0 < z" and "1 / 2 ^ 56 < z"
  shows "0 < round64 z"
proof (cases "z \<le> 1 / 8")
  case True
  from timer_step_error [OF _ this] assms(1)
  have "\<bar>round64 z - z\<bar> \<le> 1 / 72057594037927936" by simp
  moreover from assms(2) have "1 / 72057594037927936 < z" by simp
  ultimately show ?thesis by linarith
next
  case False
  have "pow2 (- 1022) \<le> 1 / 8" using pow2_mono [of "- 1022" "- 3"] by (simp add: pow2_def)
  with False have "pow2 (- 1022) \<le> \<bar>z\<bar>" by linarith
  from round64_rel_error [OF this] have "\<bar>round64 z - z\<bar> \<le> z / 9007199254740992"
    using assms(1) by (simp add: pow2_def)
  with assms(1) show ?thesis by linarith
qed

lemma due_exact:
  assumes "round64 z \<le> 0"
  shows "z \<le> 1 / 2 ^ 56"
proof (rule ccontr)
  assume "\<not> z \<le> 1 / 2 ^ 56"
  then have a: "1 / 2 ^ 56 < z" by simp
  have "(0::real) < 1 / 2 ^ 56" by simp
  from this a have "0 < z" by (rule less_trans)
  from round64_pos [OF this a] assms show False by simp
qed

lemma sequencer_bound:
  assumes "\<forall>d \<in> set ds. 0 \<le> d" and "timer \<le> 1 / 8"
  shows "spacedUpTo (1 / 2 ^ 56) (sequencer i t ds p timer)
       \<and> (\<forall>(j, u) \<in> set (sequencer i t ds p timer).
             t + timer + real i * (1 / 2 ^ 56) \<le> u + real (Suc j) * (1 / 2 ^ 56))"
  using assms
proof (induction ds arbitrary: i t p timer)
  case Nil
  show ?case by simp
next
  case (Cons d ds)
  define tol :: real where "tol = 1 / 2 ^ 56"
  have tol: "0 \<le> tol" by (simp add: tol_def)
  from Cons.prems have d0: "0 \<le> d" and rest: "\<forall>d \<in> set ds. 0 \<le> d" by simp_all
  show ?case
  proof (cases "0 < p \<and> round64 (timer - d) \<le> 0")
    case True
    then have due: "timer - d \<le> tol" unfolding tol_def by (intro due_exact) simp
    note IH = Cons.IH [OF rest timer_start(2), of "Suc i" "t + d" "p - 1", folded tol_def]
    have later: "\<forall>(j, u) \<in> set (sequencer (Suc i) (t + d) ds (p - 1) (round64 (1 / 10))).
        t + d + 1 / 10 + real (Suc i) * tol \<le> u + real (Suc j) * tol"
      using IH timer_start(1) by fastforce
    have sp: "spacedUpTo tol ((i, t + d) # sequencer (Suc i) (t + d) ds (p - 1) (round64 (1 / 10)))"
    proof (cases "sequencer (Suc i) (t + d) ds (p - 1) (round64 (1 / 10))")
      case Nil
      then show ?thesis by simp
    next
      case (Cons e es)
      obtain j u where e: "e = (j, u)" by (cases e)
      from later Cons e have "t + d + 1 / 10 + real (Suc i) * tol \<le> u + real (Suc j) * tol"
        by simp
      then have "t + d + 1 / 10 \<le> u + (real j - real i) * tol" by (simp add: algebra_simps)
      with IH Cons e show ?thesis by simp
    qed
    have first: "t + timer + real i * tol \<le> t + d + real (Suc i) * tol"
      using due by (simp add: algebra_simps)
    have others: "\<forall>(j, u) \<in> set (sequencer (Suc i) (t + d) ds (p - 1) (round64 (1 / 10))).
        t + timer + real i * tol \<le> u + real (Suc j) * tol"
    proof -
      have "t + timer + real i * tol \<le> t + d + 1 / 10 + real (Suc i) * tol"
        using due by (simp add: algebra_simps)
      with later show ?thesis by fastforce
    qed
    from True sp first others show ?thesis
      by (simp add: tol_def sequencer_fire del: sequencer.simps)
  next
    case False
    have b: "round64 (timer - d) \<le> 1 / 8" using Cons.prems(2) d0 by (rule timer_step_bound)
    note IH = Cons.IH [OF rest b, of "Suc i" "t + d" p, folded tol_def]
    show ?thesis
    proof (cases "0 < p")
      case False
      then show ?thesis by (simp add: sequencer_none_pending)
    next
      case True
      with False have pos: "0 < round64 (timer - d)" by simp
      have "0 < timer - d" using pos round64_nonpos [of "timer - d"] by (cases "0 < timer - d") auto
      then have "\<bar>round64 (timer - d) - (timer - d)\<bar> \<le> tol"
        unfolding tol_def using Cons.prems(2) d0 by (intro timer_step_error) simp_all
      then have step: "timer - d - tol \<le> round64 (timer - d)" by linarith
      have "\<forall>(j, u) \<in> set (sequencer (Suc i) (t + d) ds p (round64 (timer - d))).
          t + timer + real i * tol \<le> u + real (Suc j) * tol"
      proof -
        have "t + timer + real i * tol \<le> t + d + round64 (timer - d) + real (Suc i) * tol"
          using step by (simp add: algebra_simps)
        with IH show ?thesis by fastforce
      qed
      with IH show ?thesis
        by (simp add: tol_def sequencer_wait [OF \<open>\<not> (0 < p \<and> round64 (timer - d) \<le> 0)\<close>]
            del: sequencer.simps)
    qed
  qed
qed

lemma spawnTicks_spacing:
  assumes "\<forall>d \<in> set ds. 0 \<le> d" and "launchTimer g \<le> 1 / 8"
    and "isLaunching g \<or> pendingBalls g = 0"
  shows "spacedUpTo (1 / 2 ^ 56) (spawnTicks_v2 cv i t ds g)"
proof (cases "isGameOver g")
  case True
  then show ?thesis by (simp add: no_spawn_when_over)
next
  case False
  from spawnTicks_sequencer [OF assms(3) False] sequencer_bound [OF assms(1,2)]
  show ?thesis by simp
qed

lemma launching_or_done:
  "isLaunching g \<or> pendingBalls g = 0 \<Longrightarrow>
   isLaunching (run_v2 cv ds g) \<or> pendingBalls (run_v2 cv ds g) = 0"
proof (induction ds arbitrary: g)
  case Nil
  then show ?case by simp
next
  case (Cons d ds)
  have "isLaunching (update_v2 cv d g) \<or> pendingBalls (update_v2 cv d g) = 0"
  proof (cases "isGameOver g")
    case True
    with Cons.prems show ?thesis by (simp add: update_v2_gameOver)
  next
    case False
    from update_v2_fields(1,3) [OF False, of cv d] Cons.prems
    show ?thesis
      by (auto simp: turnComplete_def tickBody_v2_fields launchDue_def)
  qed
  from Cons.IH [OF this] show ?case by simp
qed

lemma finish_guard:
  "finishesTurn_v2 cv d g \<Longrightarrow>
     isLaunching g \<and> pendingBalls (tickBody_v2 cv d g) = 0
     \<and> list_all resting (balls (tickBody_v2 cv d g))"
proof -
  assume f: "finishesTurn_v2 cv d g"
  then have no: "\<not> isGameOver g"
    by (auto simp: finishesTurn_v2_def update_v2_gameOver)
  from f update_v2_fields(5) [OF no, of cv d] have "turnComplete (tickBody_v2 cv d g)"
    by (simp add: finishesTurn_v2_def split: if_splits)
  then show ?thesis by (simp add: turnComplete_def tickBody_v2_fields)
qed

lemma run_v2_append: "run_v2 cv (xs @ ys) g = run_v2 cv ys (run_v2 cv xs g)"
  by (induction xs arbitrary: g) simp_all

lemma run_v2_not_over: "\<not> isGameOver g \<Longrightarrow> \<not> isGameOver (run_v2 cv ds g)"
proof (induction ds arbitrary: g)
  case Nil
  then show ?case by simp
next
  case (Cons d ds)
  from update_v2_fields(4) [OF Cons.prems, of cv d] have "\<not> isGameOver (update_v2 cv d g)" .
  from Cons.IH [OF this] show ?case by simp
qed

lemma timer_bound_tick:
  assumes "launchTimer g \<le> 1 / 8" and "0 \<le> d" and "\<not> isGameOver g"
  shows "launchTimer (update_v2 cv d g) \<le> 1 / 8"
  using update_v2_fields(2) [OF assms(3), of cv d] timer_start(2)
    timer_step_bound [OF assms(1,2)] assms(1)
  by simp

lemma timer_bound_run:
  "launchTimer g \<le> 1 / 8 \<Longrightarrow> 0 \<le> d \<Longrightarrow> \<not> isGameOver g \<Longrightarrow>
   launchTimer (run_v2 cv (replicate j d) g) \<le> 1 / 8"
proof (induction j arbitrary: g)
  case 0
  then show ?case by simp
next
  case (Suc j)
  have "launchTimer (update_v2 cv d g) \<le> 1 / 8" using Suc.prems by (intro timer_bound_tick)
  moreover have "\<not> isGameOver (update_v2 cv d g)" using update_v2_fields(4) [OF Suc.prems(3)] .
  ultimately show ?case using Suc.IH Suc.prems(2) by simp
qed

text \<open>
  With ticks of a fixed length of at least \<open>1 / 2 ^ 55\<close>, twice the bound on the rounding
  error of the timer, every tick that does not spawn lowers the timer by at least half the
  tick length.
\<close>

lemma next_spawn:
  assumes "1 / 2 ^ 55 \<le> d"
  shows "isLaunching g \<Longrightarrow> \<not> isGameOver g \<Longrightarrow> pendingBalls g = Suc p \<Longrightarrow>
         launchTimer g \<le> 1 / 8 \<Longrightarrow> launchTimer g \<le> real (Suc k) * (d / 2) \<Longrightarrow>
         \<exists>j. pendingBalls (run_v2 cv (replicate j d) g) = p"
proof (induction k arbitrary: g)
  case 0
  have d: "0 < d" using assms by (rule less_le_trans [rotated]) simp
  with "0.prems"(5) have "launchTimer g - d \<le> 0" by simp
  then have "round64 (launchTimer g - d) \<le> 0" by (rule round64_nonpos)
  then have "launchDue d g" using "0.prems"(1,3) by (simp add: launchDue_def)
  then have "pendingBalls (update_v2 cv d g) = p"
    using update_v2_fields(1) [OF "0.prems"(2), of cv d] "0.prems"(3) by simp
  then have "pendingBalls (run_v2 cv (replicate 1 d) g) = p" by simp
  then show ?case by blast
next
  case (Suc k)
  have d: "0 < d" using assms by (rule less_le_trans [rotated]) simp
  show ?case
  proof (cases "launchDue d g")
    case True
    then have "pendingBalls (update_v2 cv d g) = p"
      using update_v2_fields(1) [OF Suc.prems(2), of cv d] Suc.prems(3) by simp
    then have "pendingBalls (run_v2 cv (replicate 1 d) g) = p" by simp
    then show ?thesis by blast
  next
    case False
    let ?g' = "update_v2 cv d g"
    let ?z = "launchTimer g - d"
    have p': "pendingBalls ?g' = Suc p"
      using update_v2_fields(1) [OF Suc.prems(2), of cv d] False Suc.prems(3) by simp
    have "\<not> turnComplete (tickBody_v2 cv d g)"
      using False Suc.prems(3) by (simp add: turnComplete_def tickBody_v2_fields)
    then have l': "isLaunching ?g'"
      using update_v2_fields(3) [OF Suc.prems(2), of cv d] Suc.prems(1) by simp
    have o': "\<not> isGameOver ?g'" using update_v2_fields(4) [OF Suc.prems(2)] .
    have tm: "launchTimer ?g' = round64 ?z"
      using update_v2_fields(2) [OF Suc.prems(2), of cv d] False Suc.prems(1) by simp
    have b': "launchTimer ?g' \<le> 1 / 8"
      using Suc.prems(4) d Suc.prems(2) by (intro timer_bound_tick) simp_all
    from False Suc.prems(1,3) have "0 < round64 ?z" by (simp add: launchDue_def)
    then have z: "0 < ?z" using round64_nonpos [of ?z] by (cases "0 < ?z") auto
    then have "\<bar>round64 ?z - ?z\<bar> \<le> 1 / 2 ^ 56"
      using Suc.prems(4) d by (intro timer_step_error) simp_all
    then have "\<bar>round64 ?z - ?z\<bar> \<le> 1 / 72057594037927936" by simp
    then have "round64 ?z \<le> ?z + 1 / 72057594037927936" by linarith
    moreover have "1 / 72057594037927936 \<le> d / 2" using assms by simp
    ultimately have "round64 ?z \<le> launchTimer g - d / 2" by linarith
    also have "\<dots> \<le> real (Suc (Suc k)) * (d / 2) - d / 2" using Suc.prems(5) by simp
    also have "\<dots> = real (Suc k) * (d / 2)" by (simp add: algebra_simps)
    finally have t': "launchTimer ?g' \<le> real (Suc k) * (d / 2)" by (simp add: tm)
    from Suc.IH [OF l' o' p' b' t'] obtain j where "pendingBalls (run_v2 cv (replicate j d) ?g') = p"
      by blast
    then have "pendingBalls (run_v2 cv (replicate (Suc j) d) g) = p" by simp
    then show ?thesis by blast
  qed
qed

lemma all_spawned:
  assumes "1 / 2 ^ 55 \<le> d"
  shows "isLaunching g \<Longrightarrow> \<not> isGameOver g \<Longrightarrow> pendingBalls g = p \<Longrightarrow>
         launchTimer g \<le> 1 / 8 \<Longrightarrow>
         \<exists>m. pendingBalls (run_v2 cv (replicate m d) g) = 0"
proof (induction p arbitrary: g)
  case 0
  then have "pendingBalls (run_v2 cv (replicate 0 d) g) = 0" by simp
  then show ?case by blast
next
  case (Suc p)
  have d: "0 < d" using assms by (rule less_le_trans [rotated]) simp
  then have d2: "0 < d / 2" by simp
  obtain n where "launchTimer g < real n * (d / 2)"
    using ex_less_of_nat_mult [OF d2, of "launchTimer g"] by blast
  also have "real n * (d / 2) \<le> real (Suc n) * (d / 2)" using d by (simp add: algebra_simps)
  finally have "launchTimer g \<le> real (Suc n) * (d / 2)" by simp
  from next_spawn [OF assms Suc.prems(1,2,3,4) this, of cv]
  obtain j where j: "pendingBalls (run_v2 cv (replicate j d) g) = p" by blast
  let ?g' = "run_v2 cv (replicate j d) g"
  have o': "\<not> isGameOver ?g'" using Suc.prems(2) by (rule run_v2_not_over)
  have b': "launchTimer ?g' \<le> 1 / 8"
    using Suc.prems(4) d Suc.prems(2) by (intro timer_bound_run) simp_all
  show ?case
  proof (cases p)
    case 0
    with j show ?thesis by blast
  next
    case (Suc q)
    with j launching_or_done [of g cv "replicate j d"] Suc.prems(1) have l': "isLaunching ?g'"
      by simp
    from Suc.IH [OF l' o' j b'] obtain m where "pendingBalls (run_v2 cv (replicate m d) ?g') = 0"
      by blast
    then have "pendingBalls (run_v2 cv (replicate (j + m) d) g) = 0"
      by (simp add: replicate_add run_v2_append)
    then show ?thesis by blast
  qed
qed

text \<open>
  C7. The claim is that any two consecutive spawns are at least 0.1 time-units of
  accumulated time apart. The sequencer subtracts the length of every tick from its timer
  in binary64, and the subtractions round. After \<^verbatim>\<open>launchTurn\<close> with two balls to
  launch and the six sample ticks, the first ball is spawned in the first tick, at time 0,
  and the second in the sixth tick: the timer, set to the binary64 number \<^verbatim>\<open>0.1\<close>
  and lowered five times, is then below 0, while the five tick lengths add up to less than
  \<open>1 / 10\<close>.
\<close>

theorem launch_spacing_counterexample:
  "list_all (\<lambda>d. 0 \<le> d) quickTicks
   \<and> spawnTicks_v2 sampleCanvas 0 0 quickTicks (launchTurn (- (pi / 2)) pairSession) =
       [(0, 0), (5, 115292150460684697 / 1152921504606846976)]
   \<and> \<not> spaced (map snd (spawnTicks_v2 sampleCanvas 0 0 quickTicks
                            (launchTurn (- (pi / 2)) pairSession)))"
proof -
  let ?g = "launchTurn (- (pi / 2)) pairSession"
  have a: "list_all (\<lambda>d. 0 \<le> d) quickTicks"
    by (simp add: quickTicks_def f64_eval)
  have g: "isLaunching ?g" "\<not> isGameOver ?g" "pendingBalls ?g = 2" "launchTimer ?g = 0"
    by (simp_all add: launchTurn_def pairSession_def newSession_def)
  have "spawnTicks_v2 sampleCanvas 0 0 quickTicks ?g = sequencer 0 0 quickTicks 2 0"
    using spawnTicks_sequencer [of ?g sampleCanvas 0 0 quickTicks] g by simp
  also have "\<dots> = [(0, 0), (5, 115292150460684697 / 1152921504606846976)]"
    by (simp add: quickTicks_def f64_eval)
  finally have e: "spawnTicks_v2 sampleCanvas 0 0 quickTicks ?g =
      [(0, 0), (5, 115292150460684697 / 1152921504606846976)]" .
  then have "\<not> spaced (map snd (spawnTicks_v2 sampleCanvas 0 0 quickTicks ?g))" by simp
  with a e show ?thesis by blast
qed

text \<open>
  C7, as amended. After \<^verbatim>\<open>launchTurn\<close> with chain count \<open>n\<close>, over any sequence of
  ticks: the balls spawned so far plus the pending count make \<open>n\<close>; with ticks of
  non-negative length, consecutive spawns are at least 0.1 apart in accumulated time, less
  \<open>1 / 2 ^ 56\<close> for every tick from the one spawn to the other, which bounds the rounding
  of the timer; once the session is no longer launching exactly \<open>n\<close> balls have been
  spawned; with ticks of a fixed length of at least \<open>1 / 2 ^ 55\<close> in a session that is
  not over, some number of ticks spawns all \<open>n\<close>; and a tick calls \<^verbatim>\<open>finishTurn\<close>
  only when, after its loop over the balls, the pending count is 0 and every ball rests.
\<close>

theorem launch_sequence_v2:
  "length (spawnTicks_v2 cv 0 0 ds (launchTurn a g)) + pendingBalls (run_v2 cv ds (launchTurn a g))
     = ballChain g
   \<and> ((\<forall>d \<in> set ds. 0 \<le> d) \<longrightarrow>
        spacedUpTo (1 / 2 ^ 56) (spawnTicks_v2 cv 0 0 ds (launchTurn a g)))
   \<and> (\<not> isLaunching (run_v2 cv ds (launchTurn a g)) \<longrightarrow>
        length (spawnTicks_v2 cv 0 0 ds (launchTurn a g)) = ballChain g)
   \<and> (1 / 2 ^ 55 \<le> d \<and> \<not> isGameOver g \<longrightarrow>
        (\<exists>m. pendingBalls (run_v2 cv (replicate m d) (launchTurn a g)) = 0
             \<and> length (spawnTicks_v2 cv 0 0 (replicate m d) (launchTurn a g)) = ballChain g))
   \<and> (\<forall>delta g'. finishesTurn_v2 cv delta g' \<longrightarrow>
        isLaunching g' \<and> pendingBalls (tickBody_v2 cv delta g') = 0
        \<and> list_all resting (balls (tickBody_v2 cv delta g')))"
proof -
  let ?g0 = "launchTurn a g"
  have p0: "pendingBalls ?g0 = ballChain g" and l0: "isLaunching ?g0"
    and o0: "isGameOver ?g0 = isGameOver g" and t0: "launchTimer ?g0 \<le> 1 / 8"
    by (simp_all add: launchTurn_def)
  have count: "length (spawnTicks_v2 cv 0 0 xs ?g0) + pendingBalls (run_v2 cv xs ?g0) = ballChain g"
    for xs using spawn_count [of cv 0 0 xs ?g0] p0 by simp
  have 2: "(\<forall>d \<in> set ds. 0 \<le> d) \<longrightarrow> spacedUpTo (1 / 2 ^ 56) (spawnTicks_v2 cv 0 0 ds ?g0)"
    using spawnTicks_spacing [of ds ?g0 cv 0 0] t0 l0 by blast
  have 3: "\<not> isLaunching (run_v2 cv ds ?g0) \<longrightarrow> length (spawnTicks_v2 cv 0 0 ds ?g0) = ballChain g"
    using launching_or_done [of ?g0 cv ds] l0 count [of ds] by auto
  have 4: "1 / 2 ^ 55 \<le> d \<and> \<not> isGameOver g \<longrightarrow>
        (\<exists>m. pendingBalls (run_v2 cv (replicate m d) ?g0) = 0
             \<and> length (spawnTicks_v2 cv 0 0 (replicate m d) ?g0) = ballChain g)"
  proof
    assume h: "1 / 2 ^ 55 \<le> d \<and> \<not> isGameOver g"
    then have "\<not> isGameOver ?g0" using o0 by simp
    from all_spawned [OF _ l0 this p0 t0, of d cv] h
    obtain m where m: "pendingBalls (run_v2 cv (replicate m d) ?g0) = 0" by blast
    with count [of "replicate m d"] show "\<exists>m. pendingBalls (run_v2 cv (replicate m d) ?g0) = 0
             \<and> length (spawnTicks_v2 cv 0 0 (replicate m d) ?g0) = ballChain g"
      by (intro exI [of _ m]) simp
  qed
  have 5: "\<forall>delta g'. finishesTurn_v2 cv delta g' \<longrightarrow>
        isLaunching g' \<and> pendingBalls (tickBody_v2 cv delta g') = 0
        \<and> list_all resting (balls (tickBody_v2 cv delta g'))"
    using finish_guard by blast
  from count [of ds] 2 3 4 5 show ?thesis by blast
qed

section \<open>The landing position and the end of the turn\<close>

lemma spawnRow_loop_view_aux:
  assumes "spawnRow_loop n taken g = Some res"
  shows "turnView (snd res) = turnView g"
proof (rule spawnRow_loop.raw_induct
    [where P = "\<lambda>k tk st out. turnView (snd out) = turnView st", OF _ assms])
  fix loop :: "nat \<Rightarrow> nat set \<Rightarrow> game \<Rightarrow> (nat set \<times> game) option"
  fix k tk st out
  assume IH: "\<And>k tk st out. loop k tk st = Some out \<Longrightarrow> turnView (snd out) = turnView st"
  assume body:
    "(if 0 < k then
        (let (r, s1) = RNG_next (rng st);
             c = nat \<lfloor>round64 (r * real GRID_COLUMNS)\<rfloor>
         in if c \<in> tk then loop k tk (st\<lparr>rng := s1\<rparr>)
            else
              (let (r2, s2) = RNG_next s1;
                   st' = max 1 (Math_round (round64 (real (turn st) * round64 (1 / 2 + r2))))
               in loop (k - 1) (insert c tk)
                    (st\<lparr>rng := s2, blocks := blocks st @ [Block (Some c) 0 st' Standard]\<rparr>)))
      else Some (tk, st)) = Some out"
  show "turnView (snd out) = turnView st"
  proof (cases "0 < k")
    case False
    with body show ?thesis by auto
  next
    case True
    obtain r s1 where d1: "RNG_next (rng st) = (r, s1)" by (cases "RNG_next (rng st)")
    obtain r2 s2 where d2: "RNG_next s1 = (r2, s2)" by (cases "RNG_next s1")
    show ?thesis
    proof (cases "nat \<lfloor>round64 (r * real GRID_COLUMNS)\<rfloor> \<in> tk")
      case True
      with body \<open>0 < k\<close> d1 have "loop k tk (st\<lparr>rng := s1\<rparr>) = Some out" by simp
      from IH [OF this] show ?thesis by simp
    next
      case False
      with body \<open>0 < k\<close> d1 d2 have "loop (k - 1) (insert (nat \<lfloor>round64 (r * real GRID_COLUMNS)\<rfloor>) tk)
          (st\<lparr>rng := s2, blocks := blocks st @ [Block (Some (nat \<lfloor>round64 (r * real GRID_COLUMNS)\<rfloor>)) 0
             (max 1 (Math_round (round64 (real (turn st) * round64 (1 / 2 + r2))))) Standard]\<rparr>) = Some out"
        by (simp add: Let_def)
      from IH [OF this] show ?thesis by simp
    qed
  qed
qed

lemma spawnRow_view: "spawnRow g = Some g' \<Longrightarrow> turnView g' = turnView g"
proof -
  assume a: "spawnRow g = Some g'"
  obtain r s1 where d1: "RNG_next (rng g) = (r, s1)" by (cases "RNG_next (rng g)")
  let ?n = "nat \<lfloor>round64 (r * real (max 3 (nat \<lfloor>round64 (real GRID_COLUMNS * round64 (85 / 100))\<rfloor>)
                                        - min 3 GRID_COLUMNS + 1))\<rfloor>
            + min 3 GRID_COLUMNS"
  from a d1 obtain tk g1 where l: "spawnRow_loop ?n {} (g\<lparr>rng := s1\<rparr>) = Some (tk, g1)"
    by (auto simp: spawnRow_def Let_def split: option.splits)
  from spawnRow_loop_view_aux [OF l] have v1: "turnView g1 = turnView g" by simp
  from a d1 l have "\<exists>s bl. g' = g1\<lparr>rng := s\<rparr> \<or> g' = g1\<lparr>rng := s, blocks := bl\<rparr>"
    by (auto simp: spawnRow_def Let_def case_prod_beta split: if_splits)
  then show ?thesis using v1 by auto
qed

lemma stepRowsDown_fields:
  "turn (snd (stepRowsDown cv g)) = turn g
   \<and> baseBallPosition (snd (stepRowsDown cv g)) = baseBallPosition g
   \<and> restingBalls (snd (stepRowsDown cv g)) = restingBalls g
   \<and> activeBallChainLanding (snd (stepRowsDown cv g)) = activeBallChainLanding g
   \<and> balls (snd (stepRowsDown cv g)) = balls g
   \<and> pendingBalls (snd (stepRowsDown cv g)) = pendingBalls g
   \<and> (\<not> isLaunching g \<longrightarrow> \<not> isLaunching (snd (stepRowsDown cv g)))"
  by (simp add: stepRowsDown_def gameOver_def Let_def case_prod_beta)

lemma finishTurn_v1_fields:
  assumes "finishTurn_v1 cv g = Some g'"
  shows "turn g' = Suc (turn g)" and "baseBallPosition g' = landingOr g"
    and "restingBalls g' = restingBalls g"
    and "activeBallChainLanding g' = activeBallChainLanding g"
    and "\<not> isLaunching g'" and "balls g' = []" and "pendingBalls g' = pendingBalls g"
proof -
  let ?g1 = "g\<lparr>isLaunching := False, isAiming := False, turnAngle := None,
                 turn := turn g + 1, balls := [], baseBallPosition := landingOr g\<rparr>"
  let ?g2 = "snd (stepRowsDown cv ?g1)"
  from assms have "g' = ?g2 \<or> spawnRow ?g2 = Some g'"
    by (auto simp: finishTurn_v1_def Let_def case_prod_beta split: if_splits)
  then have v: "turnView g' = turnView ?g2" using spawnRow_view by blast
  note f2 = stepRowsDown_fields [of cv ?g1]
  show "turn g' = Suc (turn g)" using turnView_fields(8) [OF v] f2 by simp
  show "baseBallPosition g' = landingOr g" using turnView_fields(3) [OF v] f2 by simp
  show "restingBalls g' = restingBalls g" using turnView_fields(11) [OF v] f2 by simp
  show "activeBallChainLanding g' = activeBallChainLanding g"
    using turnView_fields(12) [OF v] f2 by simp
  show "\<not> isLaunching g'" using turnView_fields(7) [OF v] f2 by simp
  show "balls g' = []" using turnView_fields(1) [OF v] f2 by simp
  show "pendingBalls g' = pendingBalls g" using turnView_fields(2) [OF v] f2 by simp
qed

lemma launchStep_v1_fields:
  "pendingBalls (launchStep_v1 delta g) =
     (if launchDue delta g then pendingBalls g - 1 else pendingBalls g)"
  "isLaunching (launchStep_v1 delta g) = isLaunching g"
  "isGameOver (launchStep_v1 delta g) = isGameOver g"
  "turn (launchStep_v1 delta g) = turn g"
  "baseBallPosition (launchStep_v1 delta g) = baseBallPosition g"
  "restingBalls (launchStep_v1 delta g) = restingBalls g"
  "activeBallChainLanding (launchStep_v1 delta g) = activeBallChainLanding g"
  by (simp_all add: launchStep_v1_def launchDue_def Let_def)

lemma tickBody_v1_loopView:
  "loopView (tickBody_v1 cv delta g) = loopView (launchStep_v1 delta g)"
  using ballsLoop_v1_frame [of cv delta "balls (launchStep_v1 delta g)" "launchStep_v1 delta g"]
  by (simp add: tickBody_v1_def Let_def case_prod_beta)

lemma tickBody_v1_fields:
  "pendingBalls (tickBody_v1 cv delta g) =
     (if launchDue delta g then pendingBalls g - 1 else pendingBalls g)"
  "isLaunching (tickBody_v1 cv delta g) = isLaunching g"
  "isGameOver (tickBody_v1 cv delta g) = isGameOver g"
  "turn (tickBody_v1 cv delta g) = turn g"
  "baseBallPosition (tickBody_v1 cv delta g) = baseBallPosition g"
  using loopView_fields [OF tickBody_v1_loopView, of cv delta g]
  by (simp_all add: launchStep_v1_fields)



lemma update_v1_cases:
  "update_v1 cv delta g =
     (if isGameOver g then Some g
      else if turnComplete (tickBody_v1 cv delta g) then finishTurn_v1 cv (tickBody_v1 cv delta g)
      else Some (tickBody_v1 cv delta g))"
  by (simp add: update_v1_def Let_def)






lemma idle_update_v2:
  assumes "\<not> isLaunching g"
  shows "turn (update_v2 cv d g) = turn g" and "\<not> isLaunching (update_v2 cv d g)"
    and "baseBallPosition (update_v2 cv d g) = baseBallPosition g"
    and "pendingBalls (update_v2 cv d g) = pendingBalls g"
  using assms
  by (simp_all add: update_v2_cases turnComplete_def tickBody_v2_fields launchDue_def)

lemma idle_update_v1:
  assumes "\<not> isLaunching g"
  shows "\<exists>g'. update_v1 cv d g = Some g' \<and> turn g' = turn g \<and> \<not> isLaunching g'
           \<and> baseBallPosition g' = baseBallPosition g \<and> pendingBalls g' = pendingBalls g"
  using assms
  by (simp add: update_v1_cases turnComplete_def tickBody_v1_fields launchDue_def)

lemma idle_no_balls:
  assumes "\<not> isLaunching g" and "balls g = []"
  shows "update_v2 cv d g = g" and "update_v1 cv d g = Some g"
proof -
  have "tickBody_v2 cv d g = g\<lparr>balls := []\<rparr>"
    using assms by (simp add: tickBody_v2_def launchStep_v2_def)
  also have "\<dots> = g" using assms(2) by simp
  finally have t2: "tickBody_v2 cv d g = g" .
  have "tickBody_v1 cv d g = g\<lparr>balls := []\<rparr>"
    using assms by (simp add: tickBody_v1_def launchStep_v1_def)
  also have "\<dots> = g" using assms(2) by simp
  finally have t1: "tickBody_v1 cv d g = g" .
  show "update_v2 cv d g = g" using assms(1) by (simp add: update_v2_cases t2 turnComplete_def)
  show "update_v1 cv d g = Some g" using assms(1) by (simp add: update_v1_cases t1 turnComplete_def)
qed

text \<open>
  C4. The claim is that \<^verbatim>\<open>finishTurn\<close> in an idle session changes nothing.
  \<^verbatim>\<open>finishTurn\<close> has no guard: in a new session, which is not launching, it takes
  the turn number from 1 to 2.
\<close>

theorem finishTurn_idle_counterexample:
  "\<not> isLaunching (newSession sampleCanvas 1)
   \<and> turn (newSession sampleCanvas 1) = 1
   \<and> turn (finishTurn_v2 (newSession sampleCanvas 1)) = 2"
  by (simp add: newSession_def finishTurn_v2_def)

text \<open>
  C4, as amended. The guard is in \<^verbatim>\<open>update\<close>, the only caller: a tick of a session
  that is not launching does not call \<^verbatim>\<open>finishTurn\<close>. It leaves the turn number,
  the launching flag, the launcher position and the pending count as they are, in both
  versions, and with no ball in the collection it leaves the whole state as it is (the
  state embedded here: the particles, which every tick moves, are not part of it).
  \<^verbatim>\<open>finishTurn\<close> itself adds 1 to the turn number and empties the collection of
  balls whenever it is called.
\<close>

theorem idle_tick_keeps_turn:
  assumes "\<not> isLaunching g"
  shows "turn (update_v2 cv d g) = turn g
       \<and> \<not> isLaunching (update_v2 cv d g)
       \<and> baseBallPosition (update_v2 cv d g) = baseBallPosition g
       \<and> pendingBalls (update_v2 cv d g) = pendingBalls g
       \<and> (\<exists>g'. update_v1 cv d g = Some g' \<and> turn g' = turn g \<and> \<not> isLaunching g'
                \<and> baseBallPosition g' = baseBallPosition g \<and> pendingBalls g' = pendingBalls g)
       \<and> (balls g = [] \<longrightarrow> update_v2 cv d g = g \<and> update_v1 cv d g = Some g)
       \<and> turn (finishTurn_v2 g) = Suc (turn g)
       \<and> (\<forall>g'. finishTurn_v1 cv g = Some g' \<longrightarrow> turn g' = Suc (turn g))
       \<and> balls (finishTurn_v2 g) = []
       \<and> (\<forall>g'. finishTurn_v1 cv g = Some g' \<longrightarrow> balls g' = [])"
  using idle_update_v2 [OF assms, of cv d] idle_update_v1 [OF assms, of cv d]
    idle_no_balls [OF assms, of cv d] finishTurn_v1_fields(1,6) [of cv g]
  by (simp add: finishTurn_v2_def)

theorem idle_tick_keeps_turn_witness:
  "\<not> isLaunching (newSession sampleCanvas 1) \<and> balls (newSession sampleCanvas 1) = []
   \<and> update_v2 sampleCanvas (1 / 30) (newSession sampleCanvas 1) = newSession sampleCanvas 1
   \<and> update_v1 sampleCanvas (1 / 30) (newSession sampleCanvas 1) = Some (newSession sampleCanvas 1)
   \<and> turn (update_v2 sampleCanvas (1 / 30) (newSession sampleCanvas 1)) = 1
   \<and> turn (finishTurn_v2 (newSession sampleCanvas 1)) = 2"
proof -
  have i: "\<not> isLaunching (newSession sampleCanvas 1)" and b: "balls (newSession sampleCanvas 1) = []"
    and t: "turn (newSession sampleCanvas 1) = 1"
    by (simp_all add: newSession_def)
  from idle_tick_keeps_turn [OF i, of sampleCanvas "1 / 30"] i b t show ?thesis by simp
qed

section \<open>Two sample turns\<close>

lemma retryCandidate_free:
  "\<not> isBarrierOverlapping c g \<Longrightarrow> retryCandidate cv n c g = (c, g)"
  by (cases n) simp_all

lemma hcLoop_done: "length (barrierBlocks g) \<le> i \<Longrightarrow> hcLoop cv i b g = (b, g)"
  by (subst hcLoop.simps) simp

lemma hcLoop_step:
  "i < length (barrierBlocks g) \<Longrightarrow>
     hcLoop cv i b g = hcLoop cv (Suc i) (fst (barrierStep cv i b g)) (snd (barrierStep cv i b g))"
  by (subst hcLoop.simps) (simp add: case_prod_beta)

lemmas eval_defs =
  update_v2_def tickBody_v2_def launchStep_v2_def spawnFloatingBlock_def pickCandidate_def
  createCandidate_def isBarrierOverlapping_def handleCollisions_v2_def hcLoop_done hcLoop_step
  retryCandidate_free
  barrierStep_def Barrier_rect_def circleRectCollision_def clamp_def settle_def setResting_def
  Ball_update_v2_def bounceWalls_def Ball_v2_def BarrierBlock_def turnComplete_def
  finishTurn_v2_def landingOr_def angleOf_def launchTurn_def newSession_def sampleCanvas_def
  GAME_WIDTH_def GAME_HEIGHT_def GRID_SIZE_def GRID_COLUMNS_def BALL_RADIUS_def BALL_SPEED_v2_def
  MAX_FLOATING_BLOCKS_def Math_round_def Math_cos_def Math_sin_def RNG_next_def xorshift32_def
  f64_eval

lemma first_tick: "update_v2 sampleCanvas 1 sampleLaunch = midSession"
  by (simp add: eval_defs sampleLaunch_def midSession_def)

lemma second_tick: "update_v2 sampleCanvas 1 midSession = doneSession"
  by (simp add: eval_defs sampleLaunch_def midSession_def doneSession_def)

lemma second_tick_body:
  "tickBody_v2 sampleCanvas 1 midSession =
     doneSession\<lparr>balls := restingBalls doneSession, isLaunching := True,
                  turnAngle := Some (- (pi / 2)), turn := 1\<rparr>"
  by (simp add: eval_defs sampleLaunch_def midSession_def doneSession_def)




lemma pair_ticks:
  "spawnTicks_v2 sampleCanvas 0 0 [0, 1 / 8] (launchTurn (- (pi / 2)) pairSession) =
     [(0, 0), (1, 1 / 8)]"
proof -
  let ?g = "launchTurn (- (pi / 2)) pairSession"
  have g: "isLaunching ?g" "\<not> isGameOver ?g" "pendingBalls ?g = 2" "launchTimer ?g = 0"
    by (simp_all add: launchTurn_def pairSession_def newSession_def)
  have "spawnTicks_v2 sampleCanvas 0 0 [0, 1 / 8] ?g = sequencer 0 0 [0, 1 / 8] 2 0"
    using spawnTicks_sequencer [of ?g sampleCanvas 0 0 "[0, 1 / 8]"] g by simp
  also have "\<dots> = [(0, 0), (1, 1 / 8)]" by (simp add: f64_eval)
  finally show ?thesis .
qed

theorem launch_sequence_v2_witness:
  "ballChain (newSession sampleCanvas 1) = 1
   \<and> \<not> isGameOver (newSession sampleCanvas 1)
   \<and> spawnTicks_v2 sampleCanvas 0 0 [1, 1] sampleLaunch = [(0, 1)]
   \<and> run_v2 sampleCanvas [1, 1] sampleLaunch = doneSession
   \<and> \<not> isLaunching (run_v2 sampleCanvas [1, 1] sampleLaunch)
   \<and> length (spawnTicks_v2 sampleCanvas 0 0 [1, 1] sampleLaunch) = ballChain (newSession sampleCanvas 1)
   \<and> finishesTurn_v2 sampleCanvas 1 midSession
   \<and> pendingBalls (tickBody_v2 sampleCanvas 1 midSession) = 0
   \<and> list_all resting (balls (tickBody_v2 sampleCanvas 1 midSession))
   \<and> (\<exists>m. pendingBalls (run_v2 sampleCanvas (replicate m 1) sampleLaunch) = 0)
   \<and> spawnTicks_v2 sampleCanvas 0 0 [0, 1 / 8] (launchTurn (- (pi / 2)) pairSession) =
       [(0, 0), (1, 1 / 8)]
   \<and> spacedUpTo (1 / 2 ^ 56)
       (spawnTicks_v2 sampleCanvas 0 0 [0, 1 / 8] (launchTurn (- (pi / 2)) pairSession))"
proof -
  have c: "ballChain (newSession sampleCanvas 1) = 1" and o: "\<not> isGameOver (newSession sampleCanvas 1)"
    by (simp_all add: newSession_def)
  have r: "run_v2 sampleCanvas [1, 1] sampleLaunch = doneSession"
    by (simp add: first_tick second_tick)
  have l: "\<not> isLaunching (run_v2 sampleCanvas [1, 1] sampleLaunch)"
    unfolding r by (simp add: doneSession_def)
  have s1: "spawnsBall_v2 sampleCanvas 1 sampleLaunch"
    by (simp add: spawnsBall_v2_iff launchDue_def sampleLaunch_def launchTurn_def newSession_def
        f64_eval)
  have s2: "\<not> spawnsBall_v2 sampleCanvas 1 midSession"
    by (simp add: spawnsBall_v2_iff launchDue_def midSession_def)
  have t: "spawnTicks_v2 sampleCanvas 0 0 [1, 1] sampleLaunch = [(0, 1)]"
    using s1 s2 by (simp add: first_tick)
  have f: "finishesTurn_v2 sampleCanvas 1 midSession"
    unfolding finishesTurn_v2_def second_tick
    by (simp add: doneSession_def midSession_def sampleLaunch_def launchTurn_def newSession_def)
  have pos: "1 / 2 ^ 55 \<le> (1::real)" by simp
  have nn: "\<forall>d \<in> set [0, 1 / 8 :: real]. 0 \<le> d" by simp
  from launch_sequence_v2 [of sampleCanvas "[1, 1]" "- (pi / 2)" "newSession sampleCanvas 1" 1]
    c o r l t f pos
  have one: "length (spawnTicks_v2 sampleCanvas 0 0 [1, 1] sampleLaunch) = ballChain (newSession sampleCanvas 1)
     \<and> pendingBalls (tickBody_v2 sampleCanvas 1 midSession) = 0
     \<and> list_all resting (balls (tickBody_v2 sampleCanvas 1 midSession))
     \<and> (\<exists>m. pendingBalls (run_v2 sampleCanvas (replicate m 1) sampleLaunch) = 0)"
    unfolding sampleLaunch_def [symmetric] by auto
  from launch_sequence_v2 [of sampleCanvas "[0, 1 / 8]" "- (pi / 2)" pairSession 1] nn
  have two: "spacedUpTo (1 / 2 ^ 56)
       (spawnTicks_v2 sampleCanvas 0 0 [0, 1 / 8] (launchTurn (- (pi / 2)) pairSession))"
    by blast
  from c o t r l f one pair_ticks two show ?thesis by blast
qed


end
